theory Spec2Isabelle
  imports Main
begin

section \<open>The FileHandler of fileHandler.js\<close>

text \<open>
  The class \<^verbatim>\<open>FileHandler\<close> wraps the promise API of \<^verbatim>\<open>node:fs\<close>: every wrapped
  call first takes a per-path lock in the map \<^verbatim>\<open>fileLocks\<close>, performs the call and
  releases the lock in a \<^verbatim>\<open>finally\<close> block.

  The Node library is not part of the repository. Its functions are parameters of the
  model: \<^verbatim>\<open>path.resolve\<close>, the \<^verbatim>\<open>fs\<close> primitives and
  \<^verbatim>\<open>JSON.parse\<close>/\<^verbatim>\<open>JSON.stringify\<close>. A library function that rejects or throws
  returns \<open>Inl message\<close>, the \<^verbatim>\<open>message\<close> of its error. The errors the handler throws
  are plain \<^verbatim>\<open>Error\<close> objects, told apart only by their message; an error is modelled
  by its message string.
\<close>

subsection \<open>Data model\<close>

text \<open>The two maps the constructor creates; \<^verbatim>\<open>activeOperations\<close> is never used afterwards.\<close>

record handler =
  activeOperations :: "string \<rightharpoonup> bool"
  fileLocks :: "string \<rightharpoonup> bool"

definition FileHandler_new :: handler where
  "FileHandler_new = \<lparr>activeOperations = Map.empty, fileLocks = Map.empty\<rparr>"

text \<open>
  \<^verbatim>\<open>path.resolve\<close> of one argument: the absolute normalised path, or the error it
  throws (the argument is not a string, or it is relative and the working directory
  of the process no longer exists). The working directory is the same during a run;
  the code never changes it.
\<close>

type_synonym resolver = "string \<Rightarrow> string + string"

text \<open>
  The library: \<open>'fs\<close> is the state of the file system, \<open>'d\<close> the data read and written
  (a string, a buffer, or whatever \<^verbatim>\<open>JSON.stringify\<close> returns), \<open>'st\<close> the result of
  \<^verbatim>\<open>fs.stat\<close>, \<open>'v\<close> the JavaScript values given to \<^verbatim>\<open>JSON.stringify\<close>. Every
  primitive returns its outcome and the file system it leaves behind.
\<close>

record ('fs, 'd, 'st, 'v) node =
  path_resolve :: resolver
  fs_readFile :: "'fs \<Rightarrow> string \<Rightarrow> string \<Rightarrow> (string + 'd) \<times> 'fs"
  fs_writeFile :: "'fs \<Rightarrow> string \<Rightarrow> 'd \<Rightarrow> string \<Rightarrow> (string + unit) \<times> 'fs"
  fs_appendFile :: "'fs \<Rightarrow> string \<Rightarrow> 'd \<Rightarrow> string \<Rightarrow> (string + unit) \<times> 'fs"
  fs_access :: "'fs \<Rightarrow> string \<Rightarrow> (string + unit) \<times> 'fs"
  fs_stat :: "'fs \<Rightarrow> string \<Rightarrow> (string + 'st) \<times> 'fs"
  fs_copyFile :: "'fs \<Rightarrow> string \<Rightarrow> string \<Rightarrow> (string + unit) \<times> 'fs"
  fs_unlink :: "'fs \<Rightarrow> string \<Rightarrow> (string + unit) \<times> 'fs"
  JSON_parse :: "'d \<Rightarrow> string + 'v"
  JSON_stringify :: "'v \<Rightarrow> nat \<Rightarrow> string + 'd"

subsection \<open>The lock registry: acquireLock and releaseLock\<close>

text \<open>
  \<^verbatim>\<open>while (this.fileLocks.has(normalizedPath)) await new Promise(... setTimeout ...)\<close>:
  the loop of \<^verbatim>\<open>acquireLock\<close>, for a call that runs alone. While the caller sleeps only
  other operations could change the map; alone, the map is the same at the next test,
  so a held path is waited for without end and the loop has no result (\<open>None\<close>).
\<close>

partial_function (option) lock_wait :: "handler \<Rightarrow> string \<Rightarrow> handler option" where
  "lock_wait h normalizedPath =
     (if normalizedPath \<in> dom (fileLocks h) then lock_wait h normalizedPath else Some h)"

text \<open>
  \<^verbatim>\<open>acquireLock\<close>: when \<^verbatim>\<open>path.resolve\<close> throws, the promise is rejected with that
  error and the map is not touched; otherwise the loop, \<^verbatim>\<open>fileLocks.set\<close> and the
  return of the normalised path.
\<close>

definition acquireLock :: "resolver \<Rightarrow> handler \<Rightarrow> string \<Rightarrow> ((string + string) \<times> handler) option" where
  "acquireLock resolve h filePath =
     (case resolve filePath of
        Inl message \<Rightarrow> Some (Inl message, h)
      | Inr normalizedPath \<Rightarrow>
          (case lock_wait h normalizedPath of
             None \<Rightarrow> None
           | Some h' \<Rightarrow>
               Some (Inr normalizedPath,
                     h'\<lparr>fileLocks := (fileLocks h')(normalizedPath \<mapsto> True)\<rparr>)))"

text \<open>
  \<^verbatim>\<open>releaseLock\<close>: \<^verbatim>\<open>this.fileLocks.delete(path.resolve(filePath))\<close>. It throws when
  \<^verbatim>\<open>path.resolve\<close> throws; \<^verbatim>\<open>Map.delete\<close> never throws.
\<close>

definition releaseLock :: "resolver \<Rightarrow> handler \<Rightarrow> string \<Rightarrow> string + handler" where
  "releaseLock resolve h filePath =
     (case resolve filePath of
        Inl message \<Rightarrow> Inl message
      | Inr normalizedPath \<Rightarrow> Inr (h\<lparr>fileLocks := (fileLocks h)(normalizedPath := None)\<rparr>))"

text \<open>
  The \<^verbatim>\<open>finally\<close> block of a method: \<^verbatim>\<open>releaseLock\<close> on each locked path in turn.
  A \<^verbatim>\<open>releaseLock\<close> that throws ends the block, and its error replaces the result
  the method was about to give.
\<close>

fun release_all :: "resolver \<Rightarrow> handler \<Rightarrow> string list \<Rightarrow> string option \<times> handler" where
  "release_all resolve h [] = (None, h)"
| "release_all resolve h (lockedPath # rest) =
     (case releaseLock resolve h lockedPath of
        Inl message \<Rightarrow> (Some message, h)
      | Inr h' \<Rightarrow> release_all resolve h' rest)"

definition finally_release ::
  "resolver \<Rightarrow> handler \<Rightarrow> string list \<Rightarrow> string + 'a \<Rightarrow> (string + 'a) \<times> handler" where
  "finally_release resolve h locked outcome =
     (case release_all resolve h locked of
        (None, h') \<Rightarrow> (outcome, h')
      | (Some message, h') \<Rightarrow> (Inl message, h'))"

subsection \<open>The file operations, one call running alone\<close>

text \<open>
  Each method takes the handler and the file system and returns, when it returns, its
  result (\<open>Inl\<close> the message of the error it throws), the handler and the file system.
  The \<^verbatim>\<open>await this.acquireLock(...)\<close> is before the \<^verbatim>\<open>try\<close>: when it rejects, the
  method rejects with the same error and neither \<^verbatim>\<open>catch\<close> nor \<^verbatim>\<open>finally\<close> runs.
  The \<^verbatim>\<open>finally\<close> block runs after the \<^verbatim>\<open>return\<close> and after the \<^verbatim>\<open>throw\<close> of the
  \<^verbatim>\<open>catch\<close>.
\<close>

definition readFile ::
  "('fs, 'd, 'st, 'v) node \<Rightarrow> handler \<Rightarrow> 'fs \<Rightarrow> string \<Rightarrow> string \<Rightarrow> ((string + 'd) \<times> handler \<times> 'fs) option" where
  "readFile N h fs filePath options =
     (case acquireLock (path_resolve N) h filePath of
        None \<Rightarrow> None
      | Some (Inl e, h1) \<Rightarrow> Some (Inl e, h1, fs)
      | Some (Inr lockedPath, h1) \<Rightarrow>
          (case fs_readFile N fs lockedPath options of
             (r, fs') \<Rightarrow>
               (case finally_release (path_resolve N) h1 [lockedPath]
                       (case r of
                          Inr data \<Rightarrow> Inr data
                        | Inl message \<Rightarrow>
                            Inl (''Failed to read file '' @ filePath @ '': '' @ message)) of
                  (res, h2) \<Rightarrow> Some (res, h2, fs'))))"

definition writeFile ::
  "('fs, 'd, 'st, 'v) node \<Rightarrow> handler \<Rightarrow> 'fs \<Rightarrow> string \<Rightarrow> 'd \<Rightarrow> string \<Rightarrow> ((string + bool) \<times> handler \<times> 'fs) option" where
  "writeFile N h fs filePath data options =
     (case acquireLock (path_resolve N) h filePath of
        None \<Rightarrow> None
      | Some (Inl e, h1) \<Rightarrow> Some (Inl e, h1, fs)
      | Some (Inr lockedPath, h1) \<Rightarrow>
          (case fs_writeFile N fs lockedPath data options of
             (r, fs') \<Rightarrow>
               (case finally_release (path_resolve N) h1 [lockedPath]
                       (case r of
                          Inr _ \<Rightarrow> Inr True
                        | Inl message \<Rightarrow>
                            Inl (''Failed to write file '' @ filePath @ '': '' @ message)) of
                  (res, h2) \<Rightarrow> Some (res, h2, fs'))))"

definition appendFile ::
  "('fs, 'd, 'st, 'v) node \<Rightarrow> handler \<Rightarrow> 'fs \<Rightarrow> string \<Rightarrow> 'd \<Rightarrow> string \<Rightarrow> ((string + bool) \<times> handler \<times> 'fs) option" where
  "appendFile N h fs filePath data options =
     (case acquireLock (path_resolve N) h filePath of
        None \<Rightarrow> None
      | Some (Inl e, h1) \<Rightarrow> Some (Inl e, h1, fs)
      | Some (Inr lockedPath, h1) \<Rightarrow>
          (case fs_appendFile N fs lockedPath data options of
             (r, fs') \<Rightarrow>
               (case finally_release (path_resolve N) h1 [lockedPath]
                       (case r of
                          Inr _ \<Rightarrow> Inr True
                        | Inl message \<Rightarrow>
                            Inl (''Failed to append to file '' @ filePath @ '': '' @ message)) of
                  (res, h2) \<Rightarrow> Some (res, h2, fs'))))"

definition getStats ::
  "('fs, 'd, 'st, 'v) node \<Rightarrow> handler \<Rightarrow> 'fs \<Rightarrow> string \<Rightarrow> ((string + 'st) \<times> handler \<times> 'fs) option" where
  "getStats N h fs filePath =
     (case acquireLock (path_resolve N) h filePath of
        None \<Rightarrow> None
      | Some (Inl e, h1) \<Rightarrow> Some (Inl e, h1, fs)
      | Some (Inr lockedPath, h1) \<Rightarrow>
          (case fs_stat N fs lockedPath of
             (r, fs') \<Rightarrow>
               (case finally_release (path_resolve N) h1 [lockedPath]
                       (case r of
                          Inr stats \<Rightarrow> Inr stats
                        | Inl message \<Rightarrow>
                            Inl (''Failed to get stats for '' @ filePath @ '': '' @ message)) of
                  (res, h2) \<Rightarrow> Some (res, h2, fs'))))"

text \<open>
  \<^verbatim>\<open>copyFile\<close>: two locks, the source first, both \<^verbatim>\<open>acquireLock\<close> calls before the
  \<^verbatim>\<open>try\<close>. When the second one rejects, \<^verbatim>\<open>copyFile\<close> rejects with that error and the
  \<^verbatim>\<open>finally\<close> block does not run: the handler is returned with the entry of the
  source still in it. \<^verbatim>\<open>finally\<close> releases the source first.
\<close>

definition copyFile ::
  "('fs, 'd, 'st, 'v) node \<Rightarrow> handler \<Rightarrow> 'fs \<Rightarrow> string \<Rightarrow> string \<Rightarrow> ((string + bool) \<times> handler \<times> 'fs) option" where
  "copyFile N h fs source destination =
     (case acquireLock (path_resolve N) h source of
        None \<Rightarrow> None
      | Some (Inl e, h1) \<Rightarrow> Some (Inl e, h1, fs)
      | Some (Inr sourceLock, h1) \<Rightarrow>
          (case acquireLock (path_resolve N) h1 destination of
             None \<Rightarrow> None
           | Some (Inl e, h2) \<Rightarrow> Some (Inl e, h2, fs)
           | Some (Inr destLock, h2) \<Rightarrow>
               (case fs_copyFile N fs sourceLock destLock of
                  (r, fs') \<Rightarrow>
                    (case finally_release (path_resolve N) h2 [sourceLock, destLock]
                            (case r of
                               Inr _ \<Rightarrow> Inr True
                             | Inl message \<Rightarrow>
                                 Inl (''Failed to copy '' @ source @ '' to '' @ destination
                                       @ '': '' @ message)) of
                       (res, h3) \<Rightarrow> Some (res, h3, fs')))))"

definition deleteFile ::
  "('fs, 'd, 'st, 'v) node \<Rightarrow> handler \<Rightarrow> 'fs \<Rightarrow> string \<Rightarrow> ((string + bool) \<times> handler \<times> 'fs) option" where
  "deleteFile N h fs filePath =
     (case acquireLock (path_resolve N) h filePath of
        None \<Rightarrow> None
      | Some (Inl e, h1) \<Rightarrow> Some (Inl e, h1, fs)
      | Some (Inr lockedPath, h1) \<Rightarrow>
          (case fs_unlink N fs lockedPath of
             (r, fs') \<Rightarrow>
               (case finally_release (path_resolve N) h1 [lockedPath]
                       (case r of
                          Inr _ \<Rightarrow> Inr True
                        | Inl message \<Rightarrow>
                            Inl (''Failed to delete file '' @ filePath @ '': '' @ message)) of
                  (res, h2) \<Rightarrow> Some (res, h2, fs'))))"

text \<open>\<^verbatim>\<open>exists\<close>: the \<^verbatim>\<open>catch\<close> has no binding and returns \<^verbatim>\<open>false\<close> for every error.\<close>

definition exists ::
  "('fs, 'd, 'st, 'v) node \<Rightarrow> handler \<Rightarrow> 'fs \<Rightarrow> string \<Rightarrow> ((string + bool) \<times> handler \<times> 'fs) option" where
  "exists N h fs filePath =
     (case fs_access N fs filePath of
        (Inr _, fs') \<Rightarrow> Some (Inr True, h, fs')
      | (Inl _, fs') \<Rightarrow> Some (Inr False, h, fs'))"

text \<open>
  \<^verbatim>\<open>readJSON\<close>: the read is outside the \<^verbatim>\<open>try\<close>, so its error leaves the method as
  it is; only the error of \<^verbatim>\<open>JSON.parse\<close> is wrapped. The read uses the default
  option \<^verbatim>\<open>'utf8'\<close>.
\<close>

definition readJSON ::
  "('fs, 'd, 'st, 'v) node \<Rightarrow> handler \<Rightarrow> 'fs \<Rightarrow> string \<Rightarrow> ((string + 'v) \<times> handler \<times> 'fs) option" where
  "readJSON N h fs filePath =
     (case readFile N h fs filePath ''utf8'' of
        None \<Rightarrow> None
      | Some (Inl e, h', fs') \<Rightarrow> Some (Inl e, h', fs')
      | Some (Inr data, h', fs') \<Rightarrow>
          (case JSON_parse N data of
             Inr v \<Rightarrow> Some (Inr v, h', fs')
           | Inl message \<Rightarrow>
               Some (Inl (''Failed to parse JSON from '' @ filePath @ '': '' @ message), h', fs')))"

text \<open>
  \<^verbatim>\<open>writeJSON\<close>: both \<^verbatim>\<open>JSON.stringify\<close> and the awaited \<^verbatim>\<open>writeFile\<close> are inside the
  \<^verbatim>\<open>try\<close>; the one \<^verbatim>\<open>catch\<close> wraps the message of either error.
\<close>

definition writeJSON ::
  "('fs, 'd, 'st, 'v) node \<Rightarrow> handler \<Rightarrow> 'fs \<Rightarrow> string \<Rightarrow> 'v \<Rightarrow> nat \<Rightarrow> ((string + bool) \<times> handler \<times> 'fs) option" where
  "writeJSON N h fs filePath obj space =
     (case JSON_stringify N obj space of
        Inl message \<Rightarrow>
          Some (Inl (''Failed to write JSON to '' @ filePath @ '': '' @ message), h, fs)
      | Inr data \<Rightarrow>
          (case writeFile N h fs filePath data ''utf8'' of
             None \<Rightarrow> None
           | Some (Inr r, h', fs') \<Rightarrow> Some (Inr r, h', fs')
           | Some (Inl message, h', fs') \<Rightarrow>
               Some (Inl (''Failed to write JSON to '' @ filePath @ '': '' @ message), h', fs')))"

subsection \<open>How the errors are told apart\<close>

text \<open>
  An error of the handler is recognised by the fixed text its message starts with, up to
  and including the path and the colon of the template.
\<close>

definition starts_with :: "string \<Rightarrow> string \<Rightarrow> bool" where
  "starts_with pre s = (take (length pre) s = pre)"

definition is_read_failure :: "string \<Rightarrow> string \<Rightarrow> bool" where
  "is_read_failure filePath e = starts_with (''Failed to read file '' @ filePath @ '': '') e"

definition is_parse_failure :: "string \<Rightarrow> string \<Rightarrow> bool" where
  "is_parse_failure filePath e = starts_with (''Failed to parse JSON from '' @ filePath @ '': '') e"

definition is_write_failure :: "string \<Rightarrow> string \<Rightarrow> bool" where
  "is_write_failure filePath e = starts_with (''Failed to write file '' @ filePath @ '': '') e"

definition is_writeJSON_failure :: "string \<Rightarrow> string \<Rightarrow> bool" where
  "is_writeJSON_failure filePath e = starts_with (''Failed to write JSON to '' @ filePath @ '': '') e"

subsection \<open>Concurrent calls\<close>

text \<open>
  JavaScript runs the calls on one thread; a call gives up control only at an
  \<^verbatim>\<open>await\<close>. A call of a locking method is therefore a sequence of segments, each run
  without interruption:
  \<^item> one test of the loop condition of \<^verbatim>\<open>acquireLock\<close> together with, when the path is
    free, the \<^verbatim>\<open>fileLocks.set\<close> that follows the loop (there is no \<^verbatim>\<open>await\<close> between
    them); when the path is held the call sleeps and tests again in a later segment;
    when \<^verbatim>\<open>path.resolve\<close> throws, \<^verbatim>\<open>acquireLock\<close> rejects and, the \<^verbatim>\<open>await\<close> being
    before the \<^verbatim>\<open>try\<close>, the call completes by throwing that error;
  \<^item> the start of the \<^verbatim>\<open>fs\<close> call, once \<^verbatim>\<open>acquireLock\<close> has returned;
  \<^item> the end of the \<^verbatim>\<open>fs\<close> call: \<^verbatim>\<open>return\<close> or \<^verbatim>\<open>catch\<close>/\<^verbatim>\<open>throw\<close>, then \<^verbatim>\<open>finally\<close>.
  Which call runs its next segment, and whether an \<^verbatim>\<open>fs\<close> call succeeds, is chosen by
  the environment. The data and options of a call are handed to \<^verbatim>\<open>fs\<close> unchanged and
  play no part in the locking; a call is given by its method and its paths.
\<close>

datatype call =
    ReadFile string
  | WriteFile string
  | AppendFile string
  | GetStats string
  | CopyFile string string
  | DeleteFile string

datatype completion = Returned | Threw string

text \<open>
  Where a call stands, with its local variables \<^verbatim>\<open>lockedPath\<close> or \<^verbatim>\<open>sourceLock\<close>,
  \<^verbatim>\<open>destLock\<close>: in its first \<^verbatim>\<open>acquireLock\<close>; \<^verbatim>\<open>copyFile\<close> in its second
  \<^verbatim>\<open>acquireLock\<close>; all locks taken; the \<^verbatim>\<open>fs\<close> call in flight; completed.
\<close>

datatype pc =
    Start
  | GotSource string
  | Locked "string list"
  | InIO "string list"
  | Done completion

text \<open>The record of what the calls did to the lock table (not a variable of the code).\<close>

datatype event = Acquired nat string | Released nat string

record system =
  registry :: handler
  calls :: "(call \<times> pc) list"
  history :: "event list"

text \<open>
  One pass through \<^verbatim>\<open>acquireLock\<close>: \<^verbatim>\<open>path.resolve\<close>, one test of
  \<^verbatim>\<open>fileLocks.has\<close> and, when it fails, the \<^verbatim>\<open>set\<close> and \<^verbatim>\<open>return\<close>. \<open>None\<close>: the
  path is held and the call sleeps. (\<^verbatim>\<open>path.resolve\<close> gives the same result each time,
  so computing it again at a later test changes nothing.)
\<close>

definition poll :: "resolver \<Rightarrow> handler \<Rightarrow> string \<Rightarrow> ((string + string) \<times> handler) option" where
  "poll resolve h filePath =
     (case resolve filePath of
        Inl message \<Rightarrow> Some (Inl message, h)
      | Inr normalizedPath \<Rightarrow>
          if normalizedPath \<in> dom (fileLocks h) then None
          else Some (Inr normalizedPath,
                     h\<lparr>fileLocks := (fileLocks h)(normalizedPath \<mapsto> True)\<rparr>))"

fun firstPath :: "call \<Rightarrow> string" where
  "firstPath (ReadFile filePath) = filePath"
| "firstPath (WriteFile filePath) = filePath"
| "firstPath (AppendFile filePath) = filePath"
| "firstPath (GetStats filePath) = filePath"
| "firstPath (CopyFile source destination) = source"
| "firstPath (DeleteFile filePath) = filePath"

fun paths :: "call \<Rightarrow> string list" where
  "paths (CopyFile source destination) = [source, destination]"
| "paths c = [firstPath c]"

text \<open>The message of the error each method throws in its \<^verbatim>\<open>catch\<close>.\<close>

fun failure :: "call \<Rightarrow> string \<Rightarrow> string" where
  "failure (ReadFile filePath) message = ''Failed to read file '' @ filePath @ '': '' @ message"
| "failure (WriteFile filePath) message = ''Failed to write file '' @ filePath @ '': '' @ message"
| "failure (AppendFile filePath) message =
     ''Failed to append to file '' @ filePath @ '': '' @ message"
| "failure (GetStats filePath) message =
     ''Failed to get stats for '' @ filePath @ '': '' @ message"
| "failure (CopyFile source destination) message =
     ''Failed to copy '' @ source @ '' to '' @ destination @ '': '' @ message"
| "failure (DeleteFile filePath) message =
     ''Failed to delete file '' @ filePath @ '': '' @ message"

text \<open>The paths that \<^verbatim>\<open>finally\<close> removes from the table: up to the first release that throws.\<close>

fun released :: "resolver \<Rightarrow> string list \<Rightarrow> string list" where
  "released resolve [] = []"
| "released resolve (lockedPath # rest) =
     (case resolve lockedPath of
        Inl message \<Rightarrow> []
      | Inr normalizedPath \<Rightarrow> normalizedPath # released resolve rest)"

text \<open>
  The next segment of call number \<open>i\<close>; \<open>io\<close> is the outcome of its \<^verbatim>\<open>fs\<close> call
  (\<open>Some message\<close> when it fails), read only when that call ends.
\<close>

fun advance ::
  "resolver \<Rightarrow> nat \<Rightarrow> string option \<Rightarrow> call \<Rightarrow> pc \<Rightarrow> handler \<Rightarrow> pc \<times> handler \<times> event list" where
  "advance resolve i io c Start h =
     (case poll resolve h (firstPath c) of
        None \<Rightarrow> (Start, h, [])
      | Some (Inl message, h') \<Rightarrow> (Done (Threw message), h', [])
      | Some (Inr k, h') \<Rightarrow>
          ((case c of CopyFile source destination \<Rightarrow> GotSource k | _ \<Rightarrow> Locked [k]),
           h', [Acquired i k]))"
| "advance resolve i io (CopyFile source destination) (GotSource sourceLock) h =
     (case poll resolve h destination of
        None \<Rightarrow> (GotSource sourceLock, h, [])
      | Some (Inl message, h') \<Rightarrow> (Done (Threw message), h', [])
      | Some (Inr destLock, h') \<Rightarrow>
          (Locked [sourceLock, destLock], h', [Acquired i destLock]))"
| "advance resolve i io c (GotSource sourceLock) h = (GotSource sourceLock, h, [])"
| "advance resolve i io c (Locked ks) h = (InIO ks, h, [])"
| "advance resolve i io c (InIO ks) h =
     (case finally_release resolve h ks
             (case io of None \<Rightarrow> Inr () | Some message \<Rightarrow> Inl (failure c message)) of
        (res, h') \<Rightarrow>
          (Done (case res of Inr _ \<Rightarrow> Returned | Inl e \<Rightarrow> Threw e), h',
           map (Released i) (released resolve ks)))"
| "advance resolve i io c (Done r) h = (Done r, h, [])"

definition step :: "resolver \<Rightarrow> nat \<times> string option \<Rightarrow> system \<Rightarrow> system" where
  "step resolve a s =
     (case a of (i, io) \<Rightarrow>
        if i < length (calls s) then
          (case calls s ! i of (c, p) \<Rightarrow>
             (case advance resolve i io c p (registry s) of (p', h', evs) \<Rightarrow>
                s\<lparr>registry := h', calls := (calls s)[i := (c, p')],
                  history := history s @ evs\<rparr>))
        else s)"

definition run :: "resolver \<Rightarrow> (nat \<times> string option) list \<Rightarrow> system \<Rightarrow> system" where
  "run resolve sched s = foldl (\<lambda>s a. step resolve a s) s sched"

text \<open>The calls \<open>cs\<close> issued on a new handler, none of them started.\<close>

definition start :: "call list \<Rightarrow> system" where
  "start cs = \<lparr>registry = FileHandler_new, calls = map (\<lambda>c. (c, Start)) cs, history = []\<rparr>"

fun held :: "pc \<Rightarrow> string list" where
  "held Start = []"
| "held (GotSource sourceLock) = [sourceLock]"
| "held (Locked ks) = ks"
| "held (InIO ks) = ks"
| "held (Done r) = []"

fun in_io :: "pc \<Rightarrow> bool" where
  "in_io (InIO ks) = True"
| "in_io p = False"

fun finished :: "pc \<Rightarrow> bool" where
  "finished (Done r) = True"
| "finished p = False"

text \<open>The canonical forms of the paths of a call, of those that have one.\<close>

fun resolved :: "resolver \<Rightarrow> string list \<Rightarrow> string list" where
  "resolved resolve [] = []"
| "resolved resolve (p # ps) =
     (case resolve p of
        Inl message \<Rightarrow> resolved resolve ps
      | Inr k \<Rightarrow> k # resolved resolve ps)"

definition keys :: "resolver \<Rightarrow> call \<Rightarrow> string list" where
  "keys resolve c = resolved resolve (paths c)"

subsection \<open>What holds in every state the calls can reach\<close>

text \<open>
  \<^verbatim>\<open>path.resolve\<close> leaves its results unchanged: an absolute normalised path is
  resolved without looking at the working directory, to itself.
\<close>

definition canonical :: "resolver \<Rightarrow> bool" where
  "canonical resolve = (\<forall>p k. resolve p = Inr k \<longrightarrow> resolve k = Inr k)"

text \<open>
  The local variables of a call agree with its arguments; a call that has completed
  and whose paths all have a canonical form had two different ones if it had two.
\<close>

fun fits :: "resolver \<Rightarrow> call \<Rightarrow> pc \<Rightarrow> bool" where
  "fits resolve c Start = True"
| "fits resolve (CopyFile source destination) (GotSource k) = (resolve source = Inr k)"
| "fits resolve c (GotSource k) = False"
| "fits resolve c (Locked ks) = (map resolve (paths c) = map Inr ks)"
| "fits resolve c (InIO ks) = (map resolve (paths c) = map Inr ks)"
| "fits resolve c (Done r) =
     (map resolve (paths c) = map Inr (keys resolve c) \<longrightarrow> distinct (keys resolve c))"

definition invariant :: "resolver \<Rightarrow> call list \<Rightarrow> system \<Rightarrow> bool" where
  "invariant resolve cs s =
     (map fst (calls s) = cs \<and>
      (\<forall>i < length cs.
         fits resolve (cs ! i) (snd (calls s ! i))
         \<and> distinct (held (snd (calls s ! i)))
         \<and> set (held (snd (calls s ! i))) \<subseteq> dom (fileLocks (registry s))
         \<and> (\<forall>j < length cs. j \<noteq> i \<longrightarrow>
               set (held (snd (calls s ! i))) \<inter> set (held (snd (calls s ! j))) = {})))"

text \<open>A call whose next segment changes nothing: it has completed, or it polls a held path.\<close>

fun idle :: "resolver \<Rightarrow> handler \<Rightarrow> call \<times> pc \<Rightarrow> bool" where
  "idle resolve h (c, Start) =
     (case resolve (firstPath c) of Inl message \<Rightarrow> False | Inr k \<Rightarrow> k \<in> dom (fileLocks h))"
| "idle resolve h (CopyFile source destination, GotSource sourceLock) =
     (case resolve destination of Inl message \<Rightarrow> False | Inr k \<Rightarrow> k \<in> dom (fileLocks h))"
| "idle resolve h (c, GotSource sourceLock) = True"
| "idle resolve h (c, Locked ks) = False"
| "idle resolve h (c, InIO ks) = False"
| "idle resolve h (c, Done r) = True"

subsection \<open>A sample library\<close>

text \<open>
  One instance of the library parameters, on which the theorems below are tried:
  a working directory \<^verbatim>\<open>/app\<close>, a file system that maps paths to contents and refuses
  to write to the directory \<^verbatim>\<open>/app\<close> itself, and four JavaScript values, of which a
  \<^verbatim>\<open>BigInt\<close> and an object whose \<^verbatim>\<open>toJSON\<close> throws cannot be serialised. In a
  second instance of \<^verbatim>\<open>path.resolve\<close> the working directory has been removed:
  \<^verbatim>\<open>process.cwd()\<close> throws, so only absolute paths resolve.
\<close>

datatype js_value = JNull | JBool bool | JBigInt int | JThrowing string

definition sample_resolve :: resolver where
  "sample_resolve p =
     (if p = [] then Inr ''/app'' else if hd p = CHR ''/'' then Inr p else Inr (''/app/'' @ p))"

definition sample_resolve_no_cwd :: resolver where
  "sample_resolve_no_cwd p =
     (if p \<noteq> [] \<and> hd p = CHR ''/'' then Inr p
      else Inl ''ENOENT: no such file or directory, uv_cwd'')"

definition sample_stringify :: "js_value \<Rightarrow> nat \<Rightarrow> string + string" where
  "sample_stringify v space =
     (case v of
        JNull \<Rightarrow> Inr ''null''
      | JBool b \<Rightarrow> Inr (if b then ''true'' else ''false'')
      | JBigInt n \<Rightarrow> Inl ''Do not know how to serialize a BigInt''
      | JThrowing message \<Rightarrow> Inl message)"

definition sample_parse :: "string \<Rightarrow> string + js_value" where
  "sample_parse d =
     (if d = ''null'' then Inr JNull
      else if d = ''true'' then Inr (JBool True)
      else if d = ''false'' then Inr (JBool False)
      else Inl ''Unexpected token'')"

definition sample_lookup :: "(string \<rightharpoonup> string) \<Rightarrow> string \<Rightarrow> string + string" where
  "sample_lookup fs p =
     (case fs p of
        None \<Rightarrow> Inl (''ENOENT: no such file or directory, open '' @ p)
      | Some d \<Rightarrow> Inr d)"

definition sample_store ::
  "(string \<rightharpoonup> string) \<Rightarrow> string \<Rightarrow> string \<Rightarrow> (string + unit) \<times> (string \<rightharpoonup> string)" where
  "sample_store fs p d =
     (if p = ''/app'' then (Inl ''EISDIR: illegal operation on a directory, open /app'', fs)
      else (Inr (), fs(p \<mapsto> d)))"

definition sample_node :: "(string \<rightharpoonup> string, string, nat, js_value) node" where
  "sample_node =
     \<lparr>path_resolve = sample_resolve,
      fs_readFile = (\<lambda>fs p options. (sample_lookup fs p, fs)),
      fs_writeFile = (\<lambda>fs p d options. sample_store fs p d),
      fs_appendFile =
        (\<lambda>fs p d options. sample_store fs p ((case fs p of None \<Rightarrow> [] | Some old \<Rightarrow> old) @ d)),
      fs_access = (\<lambda>fs p. (map_sum id (\<lambda>d. ()) (sample_lookup fs p), fs)),
      fs_stat = (\<lambda>fs p. (map_sum id length (sample_lookup fs p), fs)),
      fs_copyFile =
        (\<lambda>fs source destination.
           case sample_lookup fs source of
             Inl message \<Rightarrow> (Inl message, fs)
           | Inr d \<Rightarrow> sample_store fs destination d),
      fs_unlink =
        (\<lambda>fs p. (map_sum id (\<lambda>d. ()) (sample_lookup fs p), fs(p := None))),
      JSON_parse = sample_parse,
      JSON_stringify = sample_stringify\<rparr>"

section \<open>The registry\<close>

lemma lock_wait_free:
  "normalizedPath \<notin> dom (fileLocks h) \<Longrightarrow> lock_wait h normalizedPath = Some h"
  by (subst lock_wait.simps) simp

lemma lock_wait_returns:
  assumes "lock_wait h normalizedPath = Some h'"
  shows "normalizedPath \<notin> dom (fileLocks h) \<and> h' = h"
proof (rule lock_wait.raw_induct
    [where P = "\<lambda>h p h'. p \<notin> dom (fileLocks h) \<and> h' = h", OF _ assms])
  fix lw :: "handler \<Rightarrow> string \<Rightarrow> handler option" and h h' :: handler and p :: string
  assume "\<And>h p h'. lw h p = Some h' \<Longrightarrow> p \<notin> dom (fileLocks h) \<and> h' = h"
    and "(if p \<in> dom (fileLocks h) then lw h p else Some h) = Some h'"
  then show "p \<notin> dom (fileLocks h) \<and> h' = h"
    by (cases "p \<in> dom (fileLocks h)") auto
qed

lemma lock_wait_held:
  "normalizedPath \<in> dom (fileLocks h) \<Longrightarrow> lock_wait h normalizedPath = None"
  using lock_wait_returns [of h normalizedPath] by (cases "lock_wait h normalizedPath") auto

lemma acquireLock_throws:
  "resolve filePath = Inl message \<Longrightarrow> acquireLock resolve h filePath = Some (Inl message, h)"
  by (simp add: acquireLock_def)

lemma acquireLock_free:
  "resolve filePath = Inr k \<Longrightarrow> k \<notin> dom (fileLocks h) \<Longrightarrow>
   acquireLock resolve h filePath = Some (Inr k, h\<lparr>fileLocks := (fileLocks h)(k \<mapsto> True)\<rparr>)"
  by (simp add: acquireLock_def lock_wait_free)

lemma acquireLock_held:
  "resolve filePath = Inr k \<Longrightarrow> k \<in> dom (fileLocks h) \<Longrightarrow>
   acquireLock resolve h filePath = None"
  by (simp add: acquireLock_def lock_wait_held)

lemma acquireLock_returns:
  assumes "acquireLock resolve h filePath = Some (Inr k, h1)"
  shows "resolve filePath = Inr k \<and> k \<notin> dom (fileLocks h)
         \<and> h1 = h\<lparr>fileLocks := (fileLocks h)(k \<mapsto> True)\<rparr>"
proof (cases "resolve filePath")
  case (Inl message)
  with assms show ?thesis by (simp add: acquireLock_throws)
next
  case (Inr k')
  show ?thesis
  proof (cases "k' \<in> dom (fileLocks h)")
    case True
    with assms Inr show ?thesis by (simp add: acquireLock_held)
  next
    case False
    with assms Inr show ?thesis by (auto simp: acquireLock_free)
  qed
qed

lemma acquireLock_rejects:
  assumes "acquireLock resolve h filePath = Some (Inl e, h1)"
  shows "resolve filePath = Inl e \<and> h1 = h"
proof (cases "resolve filePath")
  case (Inl message)
  with assms show ?thesis by (simp add: acquireLock_throws)
next
  case (Inr k')
  show ?thesis
  proof (cases "k' \<in> dom (fileLocks h)")
    case True
    with assms Inr show ?thesis by (simp add: acquireLock_held)
  next
    case False
    with assms Inr show ?thesis by (auto simp: acquireLock_free)
  qed
qed

lemma release_after_acquire:
  "k \<notin> dom (fileLocks h) \<Longrightarrow> resolve k = Inr k \<Longrightarrow>
   releaseLock resolve (h\<lparr>fileLocks := (fileLocks h)(k \<mapsto> True)\<rparr>) k = Inr h"
  by (simp add: releaseLock_def domIff)

lemma finally_after_acquire:
  "k \<notin> dom (fileLocks h) \<Longrightarrow> resolve k = Inr k \<Longrightarrow>
   finally_release resolve (h\<lparr>fileLocks := (fileLocks h)(k \<mapsto> True)\<rparr>) [k] outcome = (outcome, h)"
  by (simp add: finally_release_def release_after_acquire)

lemma acquireLock_poll: "acquireLock resolve h filePath = poll resolve h filePath"
proof (cases "resolve filePath")
  case (Inl message)
  then show ?thesis by (simp add: acquireLock_throws poll_def)
next
  case (Inr k)
  then show ?thesis
    by (cases "k \<in> dom (fileLocks h)") (simp_all add: acquireLock_held acquireLock_free poll_def)
qed

lemma sample_resolve_canonical: "canonical sample_resolve"
  by (auto simp: canonical_def sample_resolve_def split: if_splits)

text \<open>
  C7. For every path whose canonical form \<open>k\<close> \<^verbatim>\<open>path.resolve\<close> returns and every lock
  table: \<^verbatim>\<open>releaseLock\<close> on a path whose canonical form is not held returns and leaves
  the table as it is; releasing twice in a row never raises and the second release
  changes nothing; and after a release the canonical path is absent whoever inserted it.
\<close>

theorem releaseLock_unheld_noop:
  "(resolve P = Inr k \<and> k \<notin> dom (fileLocks h) \<longrightarrow> releaseLock resolve h P = Inr h)
   \<and> (resolve P = Inr k \<longrightarrow>
        releaseLock resolve h P = Inr (h\<lparr>fileLocks := (fileLocks h)(k := None)\<rparr>)
        \<and> releaseLock resolve (h\<lparr>fileLocks := (fileLocks h)(k := None)\<rparr>) P =
            Inr (h\<lparr>fileLocks := (fileLocks h)(k := None)\<rparr>)
        \<and> k \<notin> dom (fileLocks (h\<lparr>fileLocks := (fileLocks h)(k := None)\<rparr>)))"
  by (simp add: releaseLock_def domIff)

theorem releaseLock_unheld_noop_witness:
  "sample_resolve ''a.txt'' = Inr ''/app/a.txt''
   \<and> ''/app/a.txt'' \<notin> dom (fileLocks FileHandler_new)
   \<and> releaseLock sample_resolve FileHandler_new ''a.txt'' = Inr FileHandler_new
   \<and> releaseLock sample_resolve
        (FileHandler_new\<lparr>fileLocks := (fileLocks FileHandler_new)(''/app/a.txt'' := None)\<rparr>)
        ''a.txt'' =
       Inr (FileHandler_new\<lparr>fileLocks := (fileLocks FileHandler_new)(''/app/a.txt'' := None)\<rparr>)"
proof -
  have r: "sample_resolve ''a.txt'' = Inr ''/app/a.txt''" by (simp add: sample_resolve_def)
  have f: "''/app/a.txt'' \<notin> dom (fileLocks FileHandler_new)" by (simp add: FileHandler_new_def)
  from releaseLock_unheld_noop [of sample_resolve "''a.txt''" "''/app/a.txt''" FileHandler_new] r f
  show ?thesis by blast
qed

text \<open>
  C10. \<^verbatim>\<open>acquireLock\<close> and \<^verbatim>\<open>releaseLock\<close> canonicalise with the same function, and
  \<^verbatim>\<open>acquireLock\<close> returns the canonical path. When \<^verbatim>\<open>acquireLock(P)\<close> completes with
  the path \<open>k\<close>, then \<open>k\<close> is what \<^verbatim>\<open>path.resolve\<close> makes of \<open>P\<close>, the entry inserted is
  the one for \<open>k\<close>, which was absent before, and a following \<^verbatim>\<open>releaseLock(P)\<close>, or
  \<^verbatim>\<open>releaseLock\<close> of the returned path (\<^verbatim>\<open>path.resolve\<close> returns a path that it leaves
  unchanged), gives back the handler as it was before the acquire.
\<close>

theorem acquire_then_release_restores:
  assumes "acquireLock resolve h P = Some (Inr k, h1)"
    and "resolve k = Inr k"
  shows "resolve P = Inr k \<and> k \<notin> dom (fileLocks h)
         \<and> h1 = h\<lparr>fileLocks := (fileLocks h)(k \<mapsto> True)\<rparr>
         \<and> releaseLock resolve h1 P = Inr h \<and> releaseLock resolve h1 k = Inr h"
  using acquireLock_returns [OF assms(1)] assms(2)
  by (simp add: releaseLock_def domIff)

theorem acquire_then_release_restores_witness:
  "acquireLock sample_resolve FileHandler_new ''a.txt'' =
     Some (Inr ''/app/a.txt'', FileHandler_new\<lparr>fileLocks := [''/app/a.txt'' \<mapsto> True]\<rparr>)
   \<and> sample_resolve ''/app/a.txt'' = Inr ''/app/a.txt''
   \<and> releaseLock sample_resolve (FileHandler_new\<lparr>fileLocks := [''/app/a.txt'' \<mapsto> True]\<rparr>)
        ''a.txt'' = Inr FileHandler_new
   \<and> releaseLock sample_resolve (FileHandler_new\<lparr>fileLocks := [''/app/a.txt'' \<mapsto> True]\<rparr>)
        ''/app/a.txt'' = Inr FileHandler_new"
proof -
  have a: "acquireLock sample_resolve FileHandler_new ''a.txt'' =
     Some (Inr ''/app/a.txt'', FileHandler_new\<lparr>fileLocks := [''/app/a.txt'' \<mapsto> True]\<rparr>)"
    by (simp add: acquireLock_free [of _ _ "''/app/a.txt''"] FileHandler_new_def sample_resolve_def)
  have i: "sample_resolve ''/app/a.txt'' = Inr ''/app/a.txt''"
    by (simp add: sample_resolve_def)
  from acquire_then_release_restores [OF a i] a i show ?thesis by blast
qed

section \<open>The operations\<close>

text \<open>
  C8. \<^verbatim>\<open>exists\<close> never fails: for every path, handler and file system it returns a
  boolean, \<^verbatim>\<open>true\<close> when the access probe succeeds and \<^verbatim>\<open>false\<close> for every error of
  the probe; the lock table plays no part in the result and is returned as it was.
\<close>

theorem exists_never_fails:
  "exists N h fs P =
     Some (Inr (case fst (fs_access N fs P) of Inl message \<Rightarrow> False | Inr u \<Rightarrow> True),
           h, snd (fs_access N fs P))"
  by (simp add: exists_def split: prod.splits sum.splits)

lemma readFile_free:
  assumes "path_resolve N P = Inr k" and "k \<notin> dom (fileLocks h)"
    and "path_resolve N k = Inr k"
  shows "readFile N h fs P options =
     (case fs_readFile N fs k options of
        (Inr data, fs') \<Rightarrow> Some (Inr data, h, fs')
      | (Inl message, fs') \<Rightarrow> Some (Inl (''Failed to read file '' @ P @ '': '' @ message), h, fs'))"
  using assms
  by (simp add: readFile_def acquireLock_free finally_after_acquire split: prod.splits sum.splits)

lemma writeFile_free:
  assumes "path_resolve N P = Inr k" and "k \<notin> dom (fileLocks h)"
    and "path_resolve N k = Inr k"
  shows "writeFile N h fs P d options =
     (case fs_writeFile N fs k d options of
        (Inr u, fs') \<Rightarrow> Some (Inr True, h, fs')
      | (Inl message, fs') \<Rightarrow> Some (Inl (''Failed to write file '' @ P @ '': '' @ message), h, fs'))"
  using assms
  by (simp add: writeFile_def acquireLock_free finally_after_acquire split: prod.splits sum.splits)

lemma finally_one:
  "resolve k = Inr k' \<Longrightarrow>
   finally_release resolve h [k] outcome = (outcome, h\<lparr>fileLocks := (fileLocks h)(k' := None)\<rparr>)"
  by (simp add: finally_release_def releaseLock_def)

lemma labels_differ:
  "starts_with (''Failed to read file '' @ P @ '': '') e \<Longrightarrow>
   \<not> starts_with (''Failed to parse JSON from '' @ Q @ '': '') e"
proof
  assume r: "starts_with (''Failed to read file '' @ P @ '': '') e"
    and p: "starts_with (''Failed to parse JSON from '' @ Q @ '': '') e"
  from r have "take 11 (take (length (''Failed to read file '' @ P @ '': '')) e) = ''Failed to r''"
    by (simp add: starts_with_def)
  then have a: "take 11 e = ''Failed to r''" by (simp add: min_def)
  from p have "take 11 (take (length (''Failed to parse JSON from '' @ Q @ '': '')) e) = ''Failed to p''"
    by (simp add: starts_with_def)
  then have b: "take 11 e = ''Failed to p''" by (simp add: min_def)
  from a b show False by simp
qed

lemma starts_with_append: "starts_with pre (pre @ s)"
  by (simp add: starts_with_def)

lemma read_not_parse:
  "is_read_failure P e \<Longrightarrow> \<not> is_parse_failure Q e"
  unfolding is_read_failure_def is_parse_failure_def by (rule labels_differ)

lemma sample_paths:
  "path_resolve sample_node = sample_resolve"
  "sample_resolve ''missing.json'' = Inr ''/app/missing.json''"
  "sample_resolve ''/app/missing.json'' = Inr ''/app/missing.json''"
  "sample_resolve ''bad.json'' = Inr ''/app/bad.json''"
  "sample_resolve ''/app/bad.json'' = Inr ''/app/bad.json''"
  "sample_resolve ''data.json'' = Inr ''/app/data.json''"
  "sample_resolve ''/app/data.json'' = Inr ''/app/data.json''"
  "sample_resolve ''/app'' = Inr ''/app''"
  by (simp_all add: sample_node_def sample_resolve_def)

text \<open>
  C4. \<^verbatim>\<open>readJSON\<close> keeps its two failures apart. When the call gets the lock (the
  path has a canonical form, which is free and can be released) and the underlying read
  fails, \<^verbatim>\<open>readJSON\<close> fails with the very error of \<^verbatim>\<open>readFile\<close>
  (``Failed to read file''), which is not a parse failure; when the read succeeds and
  \<^verbatim>\<open>JSON.parse\<close> throws, it fails with ``Failed to parse JSON from'', which is not a
  read failure.
\<close>

theorem readJSON_failure_kinds:
  assumes "path_resolve N P = Inr k" and "k \<notin> dom (fileLocks h)"
    and "path_resolve N k = Inr k'"
  shows "(fs_readFile N fs k ''utf8'' = (Inl c, fs') \<longrightarrow>
            (\<exists>h'. readFile N h fs P ''utf8'' =
                     Some (Inl (''Failed to read file '' @ P @ '': '' @ c), h', fs')
                 \<and> readJSON N h fs P =
                     Some (Inl (''Failed to read file '' @ P @ '': '' @ c), h', fs'))
            \<and> is_read_failure P (''Failed to read file '' @ P @ '': '' @ c)
            \<and> \<not> is_parse_failure P (''Failed to read file '' @ P @ '': '' @ c))
       \<and> (fs_readFile N fs k ''utf8'' = (Inr d, fs') \<and> JSON_parse N d = Inl m \<longrightarrow>
            (\<exists>h'. readJSON N h fs P =
                     Some (Inl (''Failed to parse JSON from '' @ P @ '': '' @ m), h', fs'))
            \<and> is_parse_failure P (''Failed to parse JSON from '' @ P @ '': '' @ m)
            \<and> \<not> is_read_failure P (''Failed to parse JSON from '' @ P @ '': '' @ m))"
proof -
  have r: "is_read_failure P (''Failed to read file '' @ P @ '': '' @ c)"
    unfolding is_read_failure_def using starts_with_append [of "''Failed to read file '' @ P @ '': ''" c]
    by simp
  have p: "is_parse_failure P (''Failed to parse JSON from '' @ P @ '': '' @ m)"
    unfolding is_parse_failure_def
    using starts_with_append [of "''Failed to parse JSON from '' @ P @ '': ''" m] by simp
  show ?thesis
    using assms r p read_not_parse [OF r, of P] read_not_parse [of P _ P]
    by (auto simp: readJSON_def readFile_def acquireLock_free finally_one)
qed

theorem readJSON_failure_kinds_witness:
  "path_resolve sample_node ''missing.json'' = Inr ''/app/missing.json''
   \<and> ''/app/missing.json'' \<notin> dom (fileLocks FileHandler_new)
   \<and> path_resolve sample_node ''/app/missing.json'' = Inr ''/app/missing.json''
   \<and> fs_readFile sample_node Map.empty ''/app/missing.json'' ''utf8'' =
       (Inl ''ENOENT: no such file or directory, open /app/missing.json'', Map.empty)
   \<and> map_option fst (readJSON sample_node FileHandler_new Map.empty ''missing.json'') =
       Some (Inl ''Failed to read file missing.json: ENOENT: no such file or directory, open /app/missing.json'')
   \<and> path_resolve sample_node ''bad.json'' = Inr ''/app/bad.json''
   \<and> ''/app/bad.json'' \<notin> dom (fileLocks FileHandler_new)
   \<and> path_resolve sample_node ''/app/bad.json'' = Inr ''/app/bad.json''
   \<and> fs_readFile sample_node [''/app/bad.json'' \<mapsto> ''{oops''] ''/app/bad.json'' ''utf8'' =
       (Inr ''{oops'', [''/app/bad.json'' \<mapsto> ''{oops''])
   \<and> JSON_parse sample_node ''{oops'' = Inl ''Unexpected token''
   \<and> map_option fst (readJSON sample_node FileHandler_new [''/app/bad.json'' \<mapsto> ''{oops''] ''bad.json'') =
       Some (Inl ''Failed to parse JSON from bad.json: Unexpected token'')"
proof -
  have p1: "path_resolve sample_node ''missing.json'' = Inr ''/app/missing.json''"
    and q1: "path_resolve sample_node ''/app/missing.json'' = Inr ''/app/missing.json''"
    and p2: "path_resolve sample_node ''bad.json'' = Inr ''/app/bad.json''"
    and q2: "path_resolve sample_node ''/app/bad.json'' = Inr ''/app/bad.json''"
    by (simp_all add: sample_paths)
  have f1: "''/app/missing.json'' \<notin> dom (fileLocks FileHandler_new)"
    and f2: "''/app/bad.json'' \<notin> dom (fileLocks FileHandler_new)"
    by (simp_all add: FileHandler_new_def)
  have r1: "fs_readFile sample_node Map.empty ''/app/missing.json'' ''utf8'' =
       (Inl ''ENOENT: no such file or directory, open /app/missing.json'', Map.empty)"
    by (simp add: sample_node_def sample_lookup_def)
  have r2: "fs_readFile sample_node [''/app/bad.json'' \<mapsto> ''{oops''] ''/app/bad.json'' ''utf8'' =
       (Inr ''{oops'', [''/app/bad.json'' \<mapsto> ''{oops''])"
    by (simp add: sample_node_def sample_lookup_def)
  have j2: "JSON_parse sample_node ''{oops'' = Inl ''Unexpected token''"
    by (simp add: sample_node_def sample_parse_def)
  from readJSON_failure_kinds [OF p1 f1 q1, where fs = Map.empty and fs' = Map.empty
      and c = "''ENOENT: no such file or directory, open /app/missing.json''"] r1
  have a: "map_option fst (readJSON sample_node FileHandler_new Map.empty ''missing.json'') =
       Some (Inl ''Failed to read file missing.json: ENOENT: no such file or directory, open /app/missing.json'')"
    by auto
  from readJSON_failure_kinds [OF p2 f2 q2, where fs = "[''/app/bad.json'' \<mapsto> ''{oops'']"
      and fs' = "[''/app/bad.json'' \<mapsto> ''{oops'']" and d = "''{oops''"
      and m = "''Unexpected token''"] r2 j2
  have b: "map_option fst (readJSON sample_node FileHandler_new [''/app/bad.json'' \<mapsto> ''{oops''] ''bad.json'') =
       Some (Inl ''Failed to parse JSON from bad.json: Unexpected token'')"
    by auto
  from a b r1 r2 j2 f1 f2 p1 q1 p2 q2 show ?thesis by blast
qed

lemma writeFile_returns:
  assumes "writeFile N h fs P d options = Some (Inr r, h1, fs1)"
  shows "\<exists>k k'. path_resolve N P = Inr k \<and> k \<notin> dom (fileLocks h)
     \<and> path_resolve N k = Inr k'
     \<and> h1 = (h\<lparr>fileLocks := (fileLocks h)(k \<mapsto> True)\<rparr>)\<lparr>fileLocks := ((fileLocks h)(k \<mapsto> True))(k' := None)\<rparr>
     \<and> (\<exists>u. fs_writeFile N fs k d options = (Inr u, fs1))"
proof (cases "acquireLock (path_resolve N) h P")
  case None
  with assms show ?thesis by (simp add: writeFile_def)
next
  case (Some a)
  obtain e h0 where a: "a = (e, h0)" by (cases a)
  show ?thesis
  proof (cases e)
    case (Inl message)
    with assms Some a show ?thesis by (simp add: writeFile_def)
  next
    case (Inr k)
    note ret = acquireLock_returns [OF Some [unfolded a Inr]]
    show ?thesis
    proof (cases "path_resolve N k")
      case (Inl message)
      with assms Some a Inr show ?thesis
        by (auto simp: writeFile_def finally_release_def releaseLock_def split: prod.splits)
    next
      case (Inr k')
      with assms Some a \<open>e = Inr k\<close> ret show ?thesis
        by (auto simp: writeFile_def finally_release_def releaseLock_def
            split: prod.splits sum.splits)
    qed
  qed
qed

text \<open>
  C5, as the code has it. \<^verbatim>\<open>writeJSON\<close> reports both failures under one label: when
  \<^verbatim>\<open>JSON.stringify\<close> throws with message \<open>m\<close> it fails with
  ``Failed to write JSON to P: m''; when the value serialises, the call gets the lock and
  the underlying write fails with cause \<open>c\<close>, the error of \<^verbatim>\<open>writeFile\<close> is caught by
  the same \<^verbatim>\<open>catch\<close> and \<^verbatim>\<open>writeJSON\<close> fails with
  ``Failed to write JSON to P: Failed to write file P: c''.
\<close>

theorem writeJSON_failure_wrapping:
  "(JSON_stringify N V space = Inl m \<longrightarrow>
      writeJSON N h fs P V space =
        Some (Inl (''Failed to write JSON to '' @ P @ '': '' @ m), h, fs)
      \<and> is_writeJSON_failure P (''Failed to write JSON to '' @ P @ '': '' @ m))
   \<and> (JSON_stringify N V space = Inr d \<and> path_resolve N P = Inr k
        \<and> k \<notin> dom (fileLocks h) \<and> path_resolve N k = Inr k'
        \<and> fs_writeFile N fs k d ''utf8'' = (Inl c, fs') \<longrightarrow>
      (\<exists>h'. writeFile N h fs P d ''utf8'' =
               Some (Inl (''Failed to write file '' @ P @ '': '' @ c), h', fs')
           \<and> writeJSON N h fs P V space =
               Some (Inl (''Failed to write JSON to '' @ P @ '': ''
                           @ ''Failed to write file '' @ P @ '': '' @ c), h', fs'))
      \<and> is_writeJSON_failure P
           (''Failed to write JSON to '' @ P @ '': '' @ ''Failed to write file '' @ P @ '': '' @ c))"
proof -
  have w: "is_writeJSON_failure P (''Failed to write JSON to '' @ P @ '': '' @ x)" for x
    unfolding is_writeJSON_failure_def
    using starts_with_append [of "''Failed to write JSON to '' @ P @ '': ''" x] by simp
  show ?thesis
    using w [of m] w [of "''Failed to write file '' @ P @ '': '' @ c"]
    by (auto simp: writeJSON_def writeFile_def acquireLock_free finally_one)
qed

theorem writeJSON_failure_wrapping_witness:
  "JSON_stringify sample_node (JBigInt 7) 2 = Inl ''Do not know how to serialize a BigInt''
   \<and> writeJSON sample_node FileHandler_new Map.empty ''/app'' (JBigInt 7) 2 =
       Some (Inl ''Failed to write JSON to /app: Do not know how to serialize a BigInt'',
             FileHandler_new, Map.empty)
   \<and> JSON_stringify sample_node JNull 2 = Inr ''null''
   \<and> path_resolve sample_node ''/app'' = Inr ''/app''
   \<and> ''/app'' \<notin> dom (fileLocks FileHandler_new)
   \<and> fs_writeFile sample_node Map.empty ''/app'' ''null'' ''utf8'' =
       (Inl ''EISDIR: illegal operation on a directory, open /app'', Map.empty)
   \<and> map_option fst (writeJSON sample_node FileHandler_new Map.empty ''/app'' JNull 2) =
       Some (Inl ''Failed to write JSON to /app: Failed to write file /app: EISDIR: illegal operation on a directory, open /app'')"
proof -
  have s1: "JSON_stringify sample_node (JBigInt 7) 2 = Inl ''Do not know how to serialize a BigInt''"
    and s2: "JSON_stringify sample_node JNull 2 = Inr ''null''"
    by (simp_all add: sample_node_def sample_stringify_def)
  have p: "path_resolve sample_node ''/app'' = Inr ''/app''" by (simp add: sample_paths)
  have f: "''/app'' \<notin> dom (fileLocks FileHandler_new)"
    by (simp add: FileHandler_new_def)
  have w: "fs_writeFile sample_node Map.empty ''/app'' ''null'' ''utf8'' =
       (Inl ''EISDIR: illegal operation on a directory, open /app'', Map.empty)"
    by (simp add: sample_node_def sample_store_def)
  from writeJSON_failure_wrapping [where N = sample_node and V = "JBigInt 7" and space = 2
      and m = "''Do not know how to serialize a BigInt''" and h = FileHandler_new
      and fs = Map.empty and P = "''/app''"] s1
  have a: "writeJSON sample_node FileHandler_new Map.empty ''/app'' (JBigInt 7) 2 =
       Some (Inl ''Failed to write JSON to /app: Do not know how to serialize a BigInt'',
             FileHandler_new, Map.empty)"
    by simp
  from writeJSON_failure_wrapping [where N = sample_node and V = JNull and space = 2
      and d = "''null''" and h = FileHandler_new and fs = Map.empty and P = "''/app''"
      and k = "''/app''" and k' = "''/app''"
      and c = "''EISDIR: illegal operation on a directory, open /app''" and fs' = Map.empty]
    s2 p f w
  have b: "map_option fst (writeJSON sample_node FileHandler_new Map.empty ''/app'' JNull 2) =
       Some (Inl ''Failed to write JSON to /app: Failed to write file /app: EISDIR: illegal operation on a directory, open /app'')"
    by auto
  from a b s1 s2 p f w show ?thesis by blast
qed

text \<open>
  C5 as stated fails. Writing \<^verbatim>\<open>null\<close> to the directory \<^verbatim>\<open>/app\<close> serialises and then
  fails in the write; \<^verbatim>\<open>writeJSON\<close> does not fail with the write failure of
  \<^verbatim>\<open>writeFile\<close> but with an error that is no ``Failed to write file'' error, and an
  object whose \<^verbatim>\<open>toJSON\<close> throws that text, which cannot be serialised, makes
  \<^verbatim>\<open>writeJSON\<close> fail with exactly the same error.
\<close>

theorem writeJSON_failure_kinds_counterexample:
  "JSON_stringify sample_node
      (JThrowing ''Failed to write file /app: EISDIR: illegal operation on a directory, open /app'') 2 =
     Inl ''Failed to write file /app: EISDIR: illegal operation on a directory, open /app''
   \<and> JSON_stringify sample_node JNull 2 = Inr ''null''
   \<and> writeFile sample_node FileHandler_new Map.empty ''/app'' ''null'' ''utf8'' =
       Some (Inl ''Failed to write file /app: EISDIR: illegal operation on a directory, open /app'',
             FileHandler_new, Map.empty)
   \<and> writeJSON sample_node FileHandler_new Map.empty ''/app'' JNull 2 =
       Some (Inl ''Failed to write JSON to /app: Failed to write file /app: EISDIR: illegal operation on a directory, open /app'',
             FileHandler_new, Map.empty)
   \<and> writeJSON sample_node FileHandler_new Map.empty ''/app''
       (JThrowing ''Failed to write file /app: EISDIR: illegal operation on a directory, open /app'') 2 =
       writeJSON sample_node FileHandler_new Map.empty ''/app'' JNull 2
   \<and> \<not> is_write_failure ''/app''
       ''Failed to write JSON to /app: Failed to write file /app: EISDIR: illegal operation on a directory, open /app''"
proof -
  have p: "path_resolve sample_node ''/app'' = Inr ''/app''" by (simp add: sample_paths)
  have f: "''/app'' \<notin> dom (fileLocks FileHandler_new)"
    by (simp add: FileHandler_new_def)
  have w: "writeFile sample_node FileHandler_new Map.empty ''/app'' ''null'' ''utf8'' =
       Some (Inl ''Failed to write file /app: EISDIR: illegal operation on a directory, open /app'',
             FileHandler_new, Map.empty)"
    by (simp add: writeFile_free [OF p f p]) (simp add: sample_node_def sample_store_def)
  have s1: "JSON_stringify sample_node
      (JThrowing ''Failed to write file /app: EISDIR: illegal operation on a directory, open /app'') 2 =
     Inl ''Failed to write file /app: EISDIR: illegal operation on a directory, open /app''"
    and s2: "JSON_stringify sample_node JNull 2 = Inr ''null''"
    by (simp_all add: sample_node_def sample_stringify_def)
  show ?thesis
    by (simp add: writeJSON_def s1 s2 w is_write_failure_def starts_with_def)
qed

text \<open>
  C6. Round trip: let \<^verbatim>\<open>writeJSON(P, V)\<close> succeed, let \<open>V\<close> be JSON-serialisable
  (\<^verbatim>\<open>JSON.parse\<close> gives \<open>V\<close> back from what \<^verbatim>\<open>JSON.stringify\<close> made of it) and let the
  file system read back at the canonical path of \<open>P\<close> what that write stored (no write
  in between). Then \<^verbatim>\<open>readJSON(P)\<close> returns, and returns \<open>V\<close>; the lock taken by the
  write was released, so the read does not wait.
\<close>

theorem writeJSON_readJSON_roundtrip:
  assumes rP: "path_resolve N P = Inr k" and rk: "path_resolve N k = Inr k"
    and w: "writeJSON N h fs P V space = Some (Inr r, h1, fs1)"
    and json: "\<forall>d. JSON_stringify N V space = Inr d \<longrightarrow> JSON_parse N d = Inr V"
    and disk: "\<forall>d u. fs_writeFile N fs k d ''utf8'' = (Inr u, fs1) \<longrightarrow>
                 fst (fs_readFile N fs1 k ''utf8'') = Inr d"
  shows "readJSON N h1 fs1 P = Some (Inr V, h1, snd (fs_readFile N fs1 k ''utf8''))
         \<and> h1 = h"
proof -
  from w obtain d where d: "JSON_stringify N V space = Inr d"
    by (cases "JSON_stringify N V space") (auto simp: writeJSON_def)
  with w have wf: "writeFile N h fs P d ''utf8'' = Some (Inr r, h1, fs1)"
    by (auto simp: writeJSON_def split: option.splits sum.splits)
  from writeFile_returns [OF wf] rP rk
  have free: "k \<notin> dom (fileLocks h)"
    and h1: "h1 = (h\<lparr>fileLocks := (fileLocks h)(k \<mapsto> True)\<rparr>)\<lparr>fileLocks := ((fileLocks h)(k \<mapsto> True))(k := None)\<rparr>"
    and wr: "\<exists>u. fs_writeFile N fs k d ''utf8'' = (Inr u, fs1)"
    by auto
  from free h1 have hh: "h1 = h" by (simp add: domIff)
  from wr disk have rd: "fst (fs_readFile N fs1 k ''utf8'') = Inr d" by blast
  from json d have p: "JSON_parse N d = Inr V" by blast
  show ?thesis
    using rd p hh
    by (cases "fs_readFile N fs1 k ''utf8''")
      (simp add: readJSON_def readFile_free [OF rP free rk])
qed

theorem writeJSON_readJSON_roundtrip_witness:
  "path_resolve sample_node ''data.json'' = Inr ''/app/data.json''
   \<and> path_resolve sample_node ''/app/data.json'' = Inr ''/app/data.json''
   \<and> writeJSON sample_node FileHandler_new Map.empty ''data.json'' (JBool True) 2 =
       Some (Inr True, FileHandler_new, [''/app/data.json'' \<mapsto> ''true''])
   \<and> readJSON sample_node FileHandler_new [''/app/data.json'' \<mapsto> ''true''] ''data.json'' =
       Some (Inr (JBool True), FileHandler_new, [''/app/data.json'' \<mapsto> ''true''])"
proof -
  have r: "path_resolve sample_node ''data.json'' = Inr ''/app/data.json''"
    and i: "path_resolve sample_node ''/app/data.json'' = Inr ''/app/data.json''"
    by (simp_all add: sample_paths)
  have f: "''/app/data.json'' \<notin> dom (fileLocks FileHandler_new)"
    by (simp add: FileHandler_new_def)
  have st: "JSON_stringify sample_node (JBool True) 2 = Inr ''true''"
    by (simp add: sample_node_def sample_stringify_def)
  have wf: "writeFile sample_node FileHandler_new Map.empty ''data.json'' ''true'' ''utf8'' =
       Some (Inr True, FileHandler_new, [''/app/data.json'' \<mapsto> ''true''])"
    by (simp add: writeFile_free [OF r f i]) (simp add: sample_node_def sample_store_def)
  have w: "writeJSON sample_node FileHandler_new Map.empty ''data.json'' (JBool True) 2 =
       Some (Inr True, FileHandler_new, [''/app/data.json'' \<mapsto> ''true''])"
    by (simp add: writeJSON_def st wf)
  have j: "\<forall>d. JSON_stringify sample_node (JBool True) 2 = Inr d \<longrightarrow>
             JSON_parse sample_node d = Inr (JBool True)"
    by (simp add: sample_node_def sample_stringify_def sample_parse_def)
  have k: "\<forall>d u. fs_writeFile sample_node Map.empty ''/app/data.json'' d ''utf8'' =
                 (Inr u, [''/app/data.json'' \<mapsto> ''true'']) \<longrightarrow>
             fst (fs_readFile sample_node [''/app/data.json'' \<mapsto> ''true'']
                    ''/app/data.json'' ''utf8'') = Inr d"
    by (auto simp: sample_node_def sample_store_def sample_lookup_def dest: map_upd_eqD1)
  have s: "snd (fs_readFile sample_node [''/app/data.json'' \<mapsto> ''true'']
                    ''/app/data.json'' ''utf8'') = [''/app/data.json'' \<mapsto> ''true'']"
    by (simp add: sample_node_def)
  from writeJSON_readJSON_roundtrip [OF r i w j k] s w r i show ?thesis by simp
qed

lemma canonicalD: "canonical resolve \<Longrightarrow> resolve p = Inr k \<Longrightarrow> resolve k = Inr k"
  by (auto simp: canonical_def)

text \<open>
  Run alone, every single-lock method that returns gives the handler back as it found
  it. \<^verbatim>\<open>copyFile\<close> that returns does so too, but for one exit: when \<^verbatim>\<open>path.resolve\<close>
  throws for the destination, the second \<^verbatim>\<open>acquireLock\<close> rejects before the \<^verbatim>\<open>try\<close> and
  the lock of the source stays in the table. \<^verbatim>\<open>copyFile\<close> on two names of one canonical
  path does not return.
\<close>

lemma one_lock_alone:
  assumes canon: "canonical resolve"
    and ret: "(case acquireLock resolve h P of
                None \<Rightarrow> None
              | Some (Inl e, h1) \<Rightarrow> Some (Inl e, h1, fs)
              | Some (Inr k, h1) \<Rightarrow>
                  (case prim k of
                     (r, fs') \<Rightarrow>
                       (case finally_release resolve h1 [k] (wrap r) of
                          (res, h2) \<Rightarrow> Some (res, h2, fs')))) = Some (res', h', fs'')"
  shows "h' = h"
proof (cases "acquireLock resolve h P")
  case None
  with ret show ?thesis by simp
next
  case (Some x)
  obtain a h1 where x: "x = (a, h1)" by (cases x)
  show ?thesis
  proof (cases a)
    case (Inl e)
    with ret Some x acquireLock_rejects [of resolve h P e h1] show ?thesis by simp
  next
    case (Inr k)
    with acquireLock_returns [of resolve h P k h1] Some x
    have r: "resolve P = Inr k" and f: "k \<notin> dom (fileLocks h)"
      and h1: "h1 = h\<lparr>fileLocks := (fileLocks h)(k \<mapsto> True)\<rparr>"
      by simp_all
    from canonicalD [OF canon r] f h1
    have "finally_release resolve h1 [k] (wrap (fst (prim k))) = (wrap (fst (prim k)), h)"
      by (simp add: finally_after_acquire)
    with ret Some x Inr show ?thesis by (cases "prim k") simp
  qed
qed

lemma alone_restores:
  assumes "canonical (path_resolve N)"
  shows "readFile N h fs P options = Some (r1, h', fs') \<Longrightarrow> h' = h"
    and "writeFile N h fs P d options = Some (r2, h', fs') \<Longrightarrow> h' = h"
    and "appendFile N h fs P d options = Some (r2, h', fs') \<Longrightarrow> h' = h"
    and "getStats N h fs P = Some (r3, h', fs') \<Longrightarrow> h' = h"
    and "deleteFile N h fs P = Some (r2, h', fs') \<Longrightarrow> h' = h"
  unfolding readFile_def writeFile_def appendFile_def getStats_def deleteFile_def
  by (erule one_lock_alone [OF assms])+

lemma copyFile_second_acquire_rejects:
  assumes "path_resolve N source = Inr k" and "k \<notin> dom (fileLocks h)"
    and "path_resolve N destination = Inl message"
  shows "copyFile N h fs source destination =
           Some (Inl message, h\<lparr>fileLocks := (fileLocks h)(k \<mapsto> True)\<rparr>, fs)"
  using assms by (simp add: copyFile_def acquireLock_free acquireLock_throws)

lemma copyFile_alone_same_path:
  "path_resolve N P = Inr k \<Longrightarrow> path_resolve N Q = Inr k \<Longrightarrow> copyFile N h fs P Q = None"
  by (cases "k \<in> dom (fileLocks h)")
    (simp_all add: copyFile_def acquireLock_held acquireLock_free)

lemma copyFile_alone:
  assumes canon: "canonical (path_resolve N)"
    and ret: "copyFile N h fs P Q = Some (r, h', fs')"
  shows "h' = h
       \<or> (\<exists>k message. path_resolve N P = Inr k \<and> path_resolve N Q = Inl message
             \<and> r = Inl message \<and> h' = h\<lparr>fileLocks := (fileLocks h)(k \<mapsto> True)\<rparr>)"
proof -
  from ret obtain a1 h1 where a1: "acquireLock (path_resolve N) h P = Some (a1, h1)"
    by (cases "acquireLock (path_resolve N) h P") (auto simp: copyFile_def)
  show ?thesis
  proof (cases a1)
    case (Inl e)
    with ret a1 acquireLock_rejects [of "path_resolve N" h P e h1] show ?thesis
      by (simp add: copyFile_def)
  next
    case (Inr k1)
    note r1 = acquireLock_returns [OF a1 [unfolded Inr]]
    from ret a1 Inr obtain a2 h2 where a2: "acquireLock (path_resolve N) h1 Q = Some (a2, h2)"
      by (cases "acquireLock (path_resolve N) h1 Q") (auto simp: copyFile_def)
    show ?thesis
    proof (cases a2)
      case (Inl e)
      with ret a1 a2 \<open>a1 = Inr k1\<close> r1 acquireLock_rejects [of "path_resolve N" h1 Q e h2]
      show ?thesis by (simp add: copyFile_def)
    next
      case (Inr k2)
      note r2 = acquireLock_returns [OF a2 [unfolded Inr]]
      from r1 r2 have ne: "k1 \<noteq> k2" by auto
      from canonicalD [OF canon] r1 r2 have c1: "path_resolve N k1 = Inr k1"
        and c2: "path_resolve N k2 = Inr k2" by blast+
      from r1 r2 ne c1 c2
      have "finally_release (path_resolve N) h2 [k1, k2] outcome = (outcome, h)" for outcome :: "string + bool"
        by (simp add: finally_release_def releaseLock_def domIff fun_upd_twist)
      with ret a1 a2 Inr \<open>a1 = Inr k1\<close> show ?thesis
        by (auto simp: copyFile_def split: prod.splits)
    qed
  qed
qed

section \<open>Concurrent calls\<close>

lemma release_all_own:
  assumes "\<forall>k \<in> set ks. resolve k = Inr k"
  shows "release_all resolve h ks =
           (None, h\<lparr>fileLocks := (\<lambda>x. if x \<in> set ks then None else fileLocks h x)\<rparr>)"
  using assms
proof (induction ks arbitrary: h)
  case Nil
  show ?case by simp
next
  case (Cons k ks)
  then have "release_all resolve h (k # ks) =
      release_all resolve (h\<lparr>fileLocks := (fileLocks h)(k := None)\<rparr>) ks"
    by (simp add: releaseLock_def)
  also have "\<dots> = (None, (h\<lparr>fileLocks := (fileLocks h)(k := None)\<rparr>)
      \<lparr>fileLocks := (\<lambda>x. if x \<in> set ks then None
                          else fileLocks (h\<lparr>fileLocks := (fileLocks h)(k := None)\<rparr>) x)\<rparr>)"
    using Cons.prems by (intro Cons.IH) simp
  also have "\<dots> = (None, h\<lparr>fileLocks := (\<lambda>x. if x \<in> set (k # ks) then None else fileLocks h x)\<rparr>)"
    by (simp add: fun_eq_iff)
  finally show ?case .
qed

lemma released_own:
  "\<forall>k \<in> set ks. resolve k = Inr k \<Longrightarrow> released resolve ks = ks"
  by (induction ks) simp_all

lemma resolved_all:
  "map resolve ps = map Inr ks \<Longrightarrow> resolved resolve ps = ks"
  by (induction ps arbitrary: ks) auto

lemma resolved_some:
  "resolve q = Inl message \<Longrightarrow> q \<in> set ps \<Longrightarrow> map resolve ps \<noteq> map Inr ks"
  by (induction ps arbitrary: ks) auto

lemma own_keys:
  assumes "canonical resolve" and "map resolve ps = map Inr ks"
  shows "\<forall>k \<in> set ks. resolve k = Inr k"
proof
  fix k assume "k \<in> set ks"
  then obtain n where n: "n < length ks" "ks ! n = k" by (auto simp: in_set_conv_nth)
  from assms(2) have "length ps = length ks" by (metis length_map)
  with n assms(2) have "resolve (ps ! n) = Inr k" by (metis nth_map)
  with assms(1) show "resolve k = Inr k" by (rule canonicalD)
qed

lemma firstPath_in_paths: "firstPath c \<in> set (paths c)"
  by (cases c) simp_all

lemma advance_cases:
  assumes canon: "canonical resolve"
    and adv: "advance resolve i io c p h = (p', h', evs)" and fit: "fits resolve c p"
  obtains
    (wait) "p' = p" "h' = h" "evs = []"
  | (reject) message q where "p' = Done (Threw message)" "h' = h" "evs = []"
      "q \<in> set (paths c)" "resolve q = Inl message" "p = Start \<or> (\<exists>s. p = GotSource s)"
  | (acquire) k where "k \<notin> dom (fileLocks h)"
      "h' = h\<lparr>fileLocks := (fileLocks h)(k \<mapsto> True)\<rparr>"
      "held p' = held p @ [k]" "evs = [Acquired i k]" "fits resolve c p'"
      "p = Start \<or> (\<exists>s. p = GotSource s)"
  | (launch) "p = Locked (keys resolve c)" "p' = InIO (keys resolve c)" "h' = h" "evs = []"
  | (complete) "p = InIO (keys resolve c)"
      "p' = Done (case io of None \<Rightarrow> Returned | Some message \<Rightarrow> Threw (failure c message))"
      "h' = h\<lparr>fileLocks := (\<lambda>x. if x \<in> set (keys resolve c) then None else fileLocks h x)\<rparr>"
      "evs = map (Released i) (keys resolve c)"
proof (cases p)
  case Start
  show ?thesis
  proof (cases "resolve (firstPath c)")
    case (Inl message)
    with adv Start show ?thesis
      by (intro reject [of message "firstPath c"]) (auto simp: poll_def firstPath_in_paths)
  next
    case (Inr k)
    show ?thesis
    proof (cases "k \<in> dom (fileLocks h)")
      case True
      with adv Start Inr show ?thesis by (intro wait) (auto simp: poll_def)
    next
      case False
      with adv Start Inr show ?thesis
        by (intro acquire [of k]; cases c) (auto simp: poll_def)
    qed
  qed
next
  case (GotSource s)
  with fit obtain a b where c: "c = CopyFile a b" by (cases c) auto
  show ?thesis
  proof (cases "resolve b")
    case (Inl message)
    with adv GotSource c show ?thesis
      by (intro reject [of message b]) (auto simp: poll_def)
  next
    case (Inr k)
    show ?thesis
    proof (cases "k \<in> dom (fileLocks h)")
      case True
      with adv GotSource c Inr show ?thesis by (intro wait) (auto simp: poll_def)
    next
      case False
      with adv fit GotSource c Inr show ?thesis
        by (intro acquire [of k]) (auto simp: poll_def)
    qed
  qed
next
  case (Locked ks)
  with fit have "keys resolve c = ks" by (simp add: keys_def resolved_all)
  with adv Locked show ?thesis by (intro launch) auto
next
  case (InIO ks)
  with fit have m: "map resolve (paths c) = map Inr ks" by simp
  then have k: "keys resolve c = ks" by (simp add: keys_def resolved_all)
  note own = own_keys [OF canon m]
  from adv InIO show ?thesis
    by (intro complete)
      (auto simp: k finally_release_def release_all_own [OF own] released_own [OF own]
        split: option.splits)
next
  case (Done r)
  with adv show ?thesis by (intro wait) auto
qed

lemma step_unfold:
  assumes "i < length (calls s)" and "calls s ! i = (c, p)"
    and "advance resolve i io c p (registry s) = (p', h', evs)"
  shows "step resolve (i, io) s =
           s\<lparr>registry := h', calls := (calls s)[i := (c, p')], history := history s @ evs\<rparr>"
  using assms by (simp add: step_def)

lemma step_outside: "\<not> i < length (calls s) \<Longrightarrow> step resolve (i, io) s = s"
  by (simp add: step_def)

lemma invariantD:
  assumes "invariant resolve cs s" and "i < length cs"
  shows "fits resolve (cs ! i) (snd (calls s ! i))"
    and "distinct (held (snd (calls s ! i)))"
    and "set (held (snd (calls s ! i))) \<subseteq> dom (fileLocks (registry s))"
    and "i < length (calls s)"
    and "fst (calls s ! i) = cs ! i"
proof -
  from assms(1) have m: "map fst (calls s) = cs" by (simp add: invariant_def)
  then have l: "length (calls s) = length cs" by (metis length_map)
  with assms(2) show "i < length (calls s)" by simp
  then show "fst (calls s ! i) = cs ! i" using m by (metis nth_map)
  from assms have "fits resolve (cs ! i) (snd (calls s ! i))
         \<and> distinct (held (snd (calls s ! i)))
         \<and> set (held (snd (calls s ! i))) \<subseteq> dom (fileLocks (registry s))"
    by (simp add: invariant_def)
  then show "fits resolve (cs ! i) (snd (calls s ! i))"
    and "distinct (held (snd (calls s ! i)))"
    and "set (held (snd (calls s ! i))) \<subseteq> dom (fileLocks (registry s))"
    by simp_all
qed

lemma invariant_apart:
  assumes "invariant resolve cs s" and "i < length cs" and "j < length cs" and "i \<noteq> j"
  shows "set (held (snd (calls s ! i))) \<inter> set (held (snd (calls s ! j))) = {}"
  using assms by (simp add: invariant_def)

text \<open>
  A segment of call \<open>i\<close> keeps the invariant when the keys it newly holds were absent
  from the table and the entries of the other calls stay in it.
\<close>

lemma invariant_update:
  assumes inv: "invariant resolve cs s" and i: "i < length cs" and cp: "calls s ! i = (c, p)"
    and fit': "fits resolve c p'"
    and dist': "distinct (held p')"
    and sub': "set (held p') \<subseteq> dom (fileLocks h')"
    and keep: "\<And>k. k \<in> dom (fileLocks (registry s)) \<Longrightarrow> k \<notin> set (held p) \<Longrightarrow> k \<in> dom (fileLocks h')"
    and fresh: "\<And>k. k \<in> set (held p') \<Longrightarrow> k \<in> dom (fileLocks (registry s)) \<Longrightarrow> k \<in> set (held p)"
  shows "invariant resolve cs
           (s\<lparr>registry := h', calls := (calls s)[i := (c, p')], history := history s @ evs\<rparr>)"
    (is "invariant resolve cs ?s'")
proof -
  from inv have fsts: "map fst (calls s) = cs" by (simp add: invariant_def)
  then have len: "length (calls s) = length cs" by (metis length_map)
  from invariantD(5) [OF inv i] cp have c: "cs ! i = c" by simp
  note old = invariantD(1,2,3) [OF inv]
  have disj: "set (held (snd (calls s ! j))) \<inter> set (held (snd (calls s ! k))) = {}"
    if "j < length cs" "k < length cs" "k \<noteq> j" for j k
    using invariant_apart [OF inv that(1,2)] that(3) by blast
  have pi: "snd (calls ?s' ! i) = p'" using i len by simp
  have pj: "snd (calls ?s' ! j) = snd (calls s ! j)" if "j \<noteq> i" for j
    using that by simp
  have A: "map fst (calls ?s') = cs"
    using fsts c i by (simp add: map_update) (metis list_update_id)
  have apart: "set (held p') \<inter> set (held (snd (calls s ! k))) = {}"
    if k: "k < length cs" "k \<noteq> i" for k
  proof -
    have "x \<notin> set (held (snd (calls s ! k)))" if x: "x \<in> set (held p')" for x
    proof
      assume xk: "x \<in> set (held (snd (calls s ! k)))"
      with old(3) [OF k(1)] have "x \<in> dom (fileLocks (registry s))" by blast
      with fresh [OF x] have "x \<in> set (held p)" by simp
      moreover from disj [OF i k] cp have "set (held p) \<inter> set (held (snd (calls s ! k))) = {}"
        by simp
      ultimately show False using xk by blast
    qed
    then show ?thesis by blast
  qed
  have B: "fits resolve (cs ! j) (snd (calls ?s' ! j))
         \<and> distinct (held (snd (calls ?s' ! j)))
         \<and> set (held (snd (calls ?s' ! j))) \<subseteq> dom (fileLocks (registry ?s'))
         \<and> (\<forall>k < length cs. k \<noteq> j \<longrightarrow>
               set (held (snd (calls ?s' ! j))) \<inter> set (held (snd (calls ?s' ! k))) = {})"
    if j: "j < length cs" for j
  proof (cases "j = i")
    case True
    have "\<forall>k < length cs. k \<noteq> i \<longrightarrow> set (held p') \<inter> set (held (snd (calls ?s' ! k))) = {}"
      using apart pj by simp
    with True show ?thesis
      unfolding True pi using fit' dist' sub' c by simp
  next
    case False
    have sub: "set (held (snd (calls s ! j))) \<subseteq> dom (fileLocks h')"
    proof
      fix x assume x: "x \<in> set (held (snd (calls s ! j)))"
      with old(3) [OF j] have d: "x \<in> dom (fileLocks (registry s))" by blast
      from disj [OF i j False] cp x have "x \<notin> set (held p)" by auto
      with keep [OF d] show "x \<in> dom (fileLocks h')" by simp
    qed
    have d: "set (held (snd (calls s ! j))) \<inter> set (held (snd (calls ?s' ! k))) = {}"
      if k: "k < length cs" "k \<noteq> j" for k
    proof (cases "k = i")
      case True
      with apart [OF j False] pi show ?thesis by (simp add: Int_commute)
    next
      case False
      with disj [OF j k] pj [OF False] show ?thesis by simp
    qed
    show ?thesis
      unfolding pj [OF False] using old(1,2) [OF j] sub d by simp
  qed
  show ?thesis unfolding invariant_def using A B by blast
qed

lemma invariant_step:
  assumes canon: "canonical resolve" and inv: "invariant resolve cs s"
  shows "invariant resolve cs (step resolve a s)"
proof -
  obtain i io where a: "a = (i, io)" by (cases a)
  show ?thesis
  proof (cases "i < length (calls s)")
    case False
    with inv a show ?thesis by (simp add: step_outside)
  next
    case True
    obtain c p where cp: "calls s ! i = (c, p)" by (cases "calls s ! i")
    obtain p' h' evs where adv: "advance resolve i io c p (registry s) = (p', h', evs)"
      by (cases "advance resolve i io c p (registry s)")
    from inv have fsts: "map fst (calls s) = cs" by (simp add: invariant_def)
    then have len: "length (calls s) = length cs" by (metis length_map)
    with True have i: "i < length cs" by simp
    from invariantD(5) [OF inv i] cp have c: "cs ! i = c" by simp
    from invariantD(1,2,3) [OF inv i] cp c have fit: "fits resolve c p"
      and dist: "distinct (held p)"
      and sub: "set (held p) \<subseteq> dom (fileLocks (registry s))"
      by simp_all
    note s' = step_unfold [OF True cp adv]
    from canon adv fit show ?thesis
    proof (cases rule: advance_cases)
      case wait
      with s' cp have "step resolve a s = s"
        using a by (simp add: list_update_same_conv [THEN iffD2] True)
      with inv show ?thesis by simp
    next
      case (reject message q)
      show ?thesis
        unfolding a s'
      proof (rule invariant_update [OF inv i cp])
        show "fits resolve c p'" using reject by (simp add: resolved_some)
        show "distinct (held p')" using reject by simp
        show "set (held p') \<subseteq> dom (fileLocks h')" using reject by simp
        show "x \<in> dom (fileLocks h')" if "x \<in> dom (fileLocks (registry s))" for x
          using that reject by simp
        show "x \<in> set (held p)" if "x \<in> set (held p')" for x
          using that reject by simp
      qed
    next
      case (acquire k)
      show ?thesis
        unfolding a s'
      proof (rule invariant_update [OF inv i cp])
        show "fits resolve c p'" by (rule acquire)
        show "distinct (held p')" using acquire dist sub by auto
        show "set (held p') \<subseteq> dom (fileLocks h')" using acquire sub by auto
        show "x \<in> dom (fileLocks h')" if "x \<in> dom (fileLocks (registry s))" for x
          using that acquire by auto
        show "x \<in> set (held p)" if "x \<in> set (held p')" "x \<in> dom (fileLocks (registry s))" for x
          using that acquire by auto
      qed
    next
      case launch
      show ?thesis
        unfolding a s'
      proof (rule invariant_update [OF inv i cp])
        show "fits resolve c p'" using launch fit by simp
        show "distinct (held p')" using launch dist by simp
        show "set (held p') \<subseteq> dom (fileLocks h')" using launch sub by simp
        show "x \<in> dom (fileLocks h')" if "x \<in> dom (fileLocks (registry s))" for x
          using that launch by simp
        show "x \<in> set (held p)" if "x \<in> set (held p')" for x
          using that launch by simp
      qed
    next
      case complete
      show ?thesis
        unfolding a s'
      proof (rule invariant_update [OF inv i cp])
        show "fits resolve c p'" using complete dist by simp
        show "distinct (held p')" using complete by simp
        show "set (held p') \<subseteq> dom (fileLocks h')" using complete by simp
        show "x \<in> dom (fileLocks h')"
          if "x \<in> dom (fileLocks (registry s))" "x \<notin> set (held p)" for x
          using that complete by (auto simp: dom_def)
        show "x \<in> set (held p)" if "x \<in> set (held p')" for x
          using that complete by simp
      qed
    qed
  qed
qed

lemma invariant_start: "invariant resolve cs (start cs)"
  by (simp add: invariant_def start_def FileHandler_new_def comp_def)

lemma invariant_run:
  assumes "canonical resolve" and "invariant resolve cs s"
  shows "invariant resolve cs (run resolve sched s)"
  using assms(2)
proof (induction sched arbitrary: s)
  case Nil
  then show ?case by (simp add: run_def)
next
  case (Cons a sched)
  from invariant_step [OF assms(1) Cons.prems] Cons.IH show ?case by (simp add: run_def)
qed

lemma run_append: "run resolve (a @ b) s = run resolve b (run resolve a s)"
  by (simp add: run_def)

lemma reachable_invariant:
  assumes "canonical resolve"
  shows "invariant resolve cs (run resolve sched (start cs))"
  using assms invariant_start by (rule invariant_run)

lemmas evals = run_def step_def start_def poll_def FileHandler_new_def
  sample_resolve_def keys_def releaseLock_def finally_release_def

lemma poll_excludes:
  "poll resolve h P = Some (Inr k, h') \<Longrightarrow> resolve Q = Inr k \<Longrightarrow> poll resolve h' Q = None"
  by (auto simp: poll_def split: sum.splits if_splits)

text \<open>
  C1. Let any calls of the locking methods run concurrently on a new handler, in any
  interleaving of their segments. Two different calls whose arguments share a canonical
  path are never both inside their \<^verbatim>\<open>fs\<close> call; while one of them is inside it, its
  canonical paths are in the lock table and the other call holds none of them, so the
  other's \<^verbatim>\<open>fs\<close> call starts only after the release. The test and the insertion of
  \<^verbatim>\<open>acquireLock\<close> are one segment: after a successful \<open>poll\<close>, a \<open>poll\<close> for the
  same canonical path finds it held.
\<close>

theorem mutual_exclusion:
  assumes canon: "canonical resolve"
    and i: "i < length cs" and j: "j < length cs" and ij: "i \<noteq> j"
    and share: "set (keys resolve (cs ! i)) \<inter> set (keys resolve (cs ! j)) \<noteq> {}"
    and s: "s = run resolve sched (start cs)"
  shows "\<not> (in_io (snd (calls s ! i)) \<and> in_io (snd (calls s ! j)))
     \<and> (in_io (snd (calls s ! i)) \<longrightarrow>
          set (keys resolve (cs ! i)) \<subseteq> dom (fileLocks (registry s))
          \<and> set (keys resolve (cs ! i)) \<inter> set (held (snd (calls s ! j))) = {})
     \<and> (poll resolve h P = Some (Inr k, h') \<and> resolve Q = Inr k \<longrightarrow> poll resolve h' Q = None)"
proof -
  have inv: "invariant resolve cs s" unfolding s using canon by (rule reachable_invariant)
  have io: "held p = keys resolve c" if "in_io p" "fits resolve c p" for p c
  proof (cases p)
    case (InIO ks)
    with that(2) have "map resolve (paths c) = map Inr ks" by simp
    then have "keys resolve c = ks" by (simp add: keys_def resolved_all)
    with InIO show ?thesis by simp
  qed (use that in simp_all)
  note fi = invariantD(1) [OF inv i] and si = invariantD(3) [OF inv i]
    and fj = invariantD(1) [OF inv j] and d = invariant_apart [OF inv i j ij]
  have a: "\<not> (in_io (snd (calls s ! i)) \<and> in_io (snd (calls s ! j)))"
    using io [OF _ fi] io [OF _ fj] d share by auto
  have b: "in_io (snd (calls s ! i)) \<longrightarrow>
          set (keys resolve (cs ! i)) \<subseteq> dom (fileLocks (registry s))
          \<and> set (keys resolve (cs ! i)) \<inter> set (held (snd (calls s ! j))) = {}"
    using io [OF _ fi] si d by auto
  from a b poll_excludes [of resolve h P k h' Q] show ?thesis by blast
qed

text \<open>Two writes to the same file, named differently; the first is inside \<^verbatim>\<open>fs.writeFile\<close>.\<close>

theorem mutual_exclusion_witness:
  "canonical sample_resolve
   \<and> (0::nat) < length [WriteFile ''a.txt'', WriteFile ''/app/a.txt'']
   \<and> (1::nat) < length [WriteFile ''a.txt'', WriteFile ''/app/a.txt'']
   \<and> set (keys sample_resolve ([WriteFile ''a.txt'', WriteFile ''/app/a.txt''] ! 0))
       \<inter> set (keys sample_resolve ([WriteFile ''a.txt'', WriteFile ''/app/a.txt''] ! 1)) \<noteq> {}
   \<and> in_io (snd (calls (run sample_resolve [(0, None), (0, None), (1, None)]
                   (start [WriteFile ''a.txt'', WriteFile ''/app/a.txt''])) ! 0))
   \<and> \<not> in_io (snd (calls (run sample_resolve [(0, None), (0, None), (1, None)]
                   (start [WriteFile ''a.txt'', WriteFile ''/app/a.txt''])) ! 1))
   \<and> set (held (snd (calls (run sample_resolve [(0, None), (0, None), (1, None)]
                   (start [WriteFile ''a.txt'', WriteFile ''/app/a.txt''])) ! 1))) = {}
   \<and> poll sample_resolve FileHandler_new ''a.txt'' =
       Some (Inr ''/app/a.txt'', FileHandler_new\<lparr>fileLocks := [''/app/a.txt'' \<mapsto> True]\<rparr>)
   \<and> sample_resolve ''/app/a.txt'' = Inr ''/app/a.txt''
   \<and> poll sample_resolve (FileHandler_new\<lparr>fileLocks := [''/app/a.txt'' \<mapsto> True]\<rparr>) ''/app/a.txt''
       = None"
proof -
  let ?cs = "[WriteFile ''a.txt'', WriteFile ''/app/a.txt'']"
  let ?s = "run sample_resolve [(0, None), (0, None), (1, None)] (start ?cs)"
  have sh: "set (keys sample_resolve (?cs ! 0)) \<inter> set (keys sample_resolve (?cs ! 1)) \<noteq> {}"
    by (simp add: evals)
  have io: "in_io (snd (calls ?s ! 0))"
    by (simp add: evals)
  have p: "poll sample_resolve FileHandler_new ''a.txt'' =
       Some (Inr ''/app/a.txt'', FileHandler_new\<lparr>fileLocks := [''/app/a.txt'' \<mapsto> True]\<rparr>)"
    by (simp add: evals)
  have r: "sample_resolve ''/app/a.txt'' = Inr ''/app/a.txt''" by (simp add: sample_resolve_def)
  from mutual_exclusion [OF sample_resolve_canonical _ _ _ sh refl, of "[(0, None), (0, None), (1, None)]"
      FileHandler_new "''a.txt''" "''/app/a.txt''" "FileHandler_new\<lparr>fileLocks := [''/app/a.txt'' \<mapsto> True]\<rparr>" "''/app/a.txt''"]
    io p r
  have "\<not> in_io (snd (calls ?s ! 1))"
    and "set (keys sample_resolve (?cs ! 0)) \<inter> set (held (snd (calls ?s ! 1))) = {}"
    and "poll sample_resolve (FileHandler_new\<lparr>fileLocks := [''/app/a.txt'' \<mapsto> True]\<rparr>) ''/app/a.txt'' = None"
    by simp_all
  moreover have "set (held (snd (calls ?s ! 1))) = {}" by (simp add: evals)
  ultimately show ?thesis using sh io p r sample_resolve_canonical by simp
qed

lemma step_other:
  "j \<noteq> i \<Longrightarrow> calls (step resolve (j, io) s) ! i = calls s ! i"
  by (simp add: step_def split: prod.splits)

text \<open>
  The exit through the \<^verbatim>\<open>try\<close> block releases: when the \<^verbatim>\<open>fs\<close> call of a call ends,
  the call returns or throws the error of its \<^verbatim>\<open>catch\<close>, and none of its canonical
  paths is left in the lock table.
\<close>

lemma fs_exit_releases:
  assumes canon: "canonical resolve"
    and i: "i < length cs"
    and s: "s = run resolve sched (start cs)"
    and io: "in_io (snd (calls s ! i))"
  shows "snd (calls (step resolve (i, io) s) ! i) =
           Done (case io of None \<Rightarrow> Returned | Some message \<Rightarrow> Threw (failure (cs ! i) message))
     \<and> set (keys resolve (cs ! i)) \<inter> dom (fileLocks (registry (step resolve (i, io) s))) = {}"
proof -
  have inv: "invariant resolve cs s" unfolding s using canon by (rule reachable_invariant)
  note il = invariantD(4) [OF inv i]
  define c where "c = cs ! i"
  obtain p where cp: "calls s ! i = (c, p)"
    using invariantD(5) [OF inv i] by (cases "calls s ! i") (simp add: c_def)
  obtain p' h' evs where adv: "advance resolve i io c p (registry s) = (p', h', evs)"
    by (cases "advance resolve i io c p (registry s)")
  from invariantD(1) [OF inv i] cp have fit: "fits resolve c p" by (simp add: c_def)
  note s' = step_unfold [OF il cp adv]
  from io cp have pio: "in_io p" by simp
  from canon adv fit have "p' = Done (case io of None \<Rightarrow> Returned | Some message \<Rightarrow> Threw (failure c message))
      \<and> set (keys resolve c) \<inter> dom (fileLocks h') = {}"
  proof (cases rule: advance_cases)
    case wait
    with adv pio show ?thesis by (cases p) (auto split: prod.splits)
  next
    case (reject message q)
    with pio show ?thesis by auto
  next
    case (acquire k)
    with pio show ?thesis by auto
  next
    case launch
    with pio show ?thesis by simp
  next
    case complete
    then show ?thesis by (auto simp: dom_def)
  qed
  then show ?thesis using s' il unfolding c_def by simp
qed

text \<open>
  C3. A lock a call has taken is not released on every exit. In \<^verbatim>\<open>copyFile\<close> the
  second \<^verbatim>\<open>await this.acquireLock(destination)\<close> stands before the \<^verbatim>\<open>try\<close>. With the
  working directory of the process removed, \<^verbatim>\<open>path.resolve\<close> returns an absolute path
  as it is and throws for a relative one. Then \<^verbatim>\<open>copyFile('/app/a.txt', 'b.txt')\<close> on a
  new handler takes the lock of \<^verbatim>\<open>/app/a.txt\<close>, the second \<^verbatim>\<open>acquireLock\<close> rejects, and
  the call completes by throwing that error with \<^verbatim>\<open>/app/a.txt\<close> still in the lock
  table: \<^verbatim>\<open>finally\<close> is not reached, and the history of the call has an acquisition
  and no release. A later \<^verbatim>\<open>readFile('/app/a.txt')\<close> on the handler never returns.
\<close>

theorem copyFile_leaves_source_locked:
  "sample_resolve_no_cwd ''/app/a.txt'' = Inr ''/app/a.txt''
   \<and> sample_resolve_no_cwd ''b.txt'' = Inl ''ENOENT: no such file or directory, uv_cwd''
   \<and> copyFile (sample_node\<lparr>path_resolve := sample_resolve_no_cwd\<rparr>) FileHandler_new Map.empty
        ''/app/a.txt'' ''b.txt'' =
       Some (Inl ''ENOENT: no such file or directory, uv_cwd'',
             FileHandler_new\<lparr>fileLocks := [''/app/a.txt'' \<mapsto> True]\<rparr>, Map.empty)
   \<and> readFile (sample_node\<lparr>path_resolve := sample_resolve_no_cwd\<rparr>)
        (FileHandler_new\<lparr>fileLocks := [''/app/a.txt'' \<mapsto> True]\<rparr>) Map.empty
        ''/app/a.txt'' ''utf8'' = None
   \<and> run sample_resolve_no_cwd [(0, None), (0, None)] (start [CopyFile ''/app/a.txt'' ''b.txt'']) =
       \<lparr>registry = FileHandler_new\<lparr>fileLocks := [''/app/a.txt'' \<mapsto> True]\<rparr>,
        calls = [(CopyFile ''/app/a.txt'' ''b.txt'',
                  Done (Threw ''ENOENT: no such file or directory, uv_cwd''))],
        history = [Acquired 0 ''/app/a.txt'']\<rparr>"
proof -
  have a: "sample_resolve_no_cwd ''/app/a.txt'' = Inr ''/app/a.txt''"
    and b: "sample_resolve_no_cwd ''b.txt'' = Inl ''ENOENT: no such file or directory, uv_cwd''"
    by (simp_all add: sample_resolve_no_cwd_def)
  have f: "''/app/a.txt'' \<notin> dom (fileLocks FileHandler_new)" by (simp add: FileHandler_new_def)
  have c: "copyFile (sample_node\<lparr>path_resolve := sample_resolve_no_cwd\<rparr>) FileHandler_new Map.empty
        ''/app/a.txt'' ''b.txt'' =
       Some (Inl ''ENOENT: no such file or directory, uv_cwd'',
             FileHandler_new\<lparr>fileLocks := [''/app/a.txt'' \<mapsto> True]\<rparr>, Map.empty)"
    using copyFile_second_acquire_rejects
      [of "sample_node\<lparr>path_resolve := sample_resolve_no_cwd\<rparr>" "''/app/a.txt''" "''/app/a.txt''"
        FileHandler_new "''b.txt''" "''ENOENT: no such file or directory, uv_cwd''" Map.empty]
      a b f
    by (simp add: FileHandler_new_def)
  have r: "readFile (sample_node\<lparr>path_resolve := sample_resolve_no_cwd\<rparr>)
        (FileHandler_new\<lparr>fileLocks := [''/app/a.txt'' \<mapsto> True]\<rparr>) Map.empty
        ''/app/a.txt'' ''utf8'' = None"
    by (simp add: readFile_def acquireLock_held [of _ _ "''/app/a.txt''"] a)
  have m: "run sample_resolve_no_cwd [(0, None), (0, None)] (start [CopyFile ''/app/a.txt'' ''b.txt'']) =
       \<lparr>registry = FileHandler_new\<lparr>fileLocks := [''/app/a.txt'' \<mapsto> True]\<rparr>,
        calls = [(CopyFile ''/app/a.txt'' ''b.txt'',
                  Done (Threw ''ENOENT: no such file or directory, uv_cwd''))],
        history = [Acquired 0 ''/app/a.txt'']\<rparr>"
    by (simp add: run_def step_def start_def poll_def FileHandler_new_def a b)
  from a b c r m show ?thesis by blast
qed

text \<open>
  C9. A call \<^verbatim>\<open>copyFile(P, Q)\<close> whose two arguments have the same canonical path never
  completes and never starts the copy, in any concurrent run: it is in its first
  \<^verbatim>\<open>acquireLock\<close> or, holding the lock of the source, in the second one, where the
  entry it polls is the one it holds itself and every further poll leaves the state
  as it is.
\<close>

theorem copyFile_same_path_never_completes:
  assumes canon: "canonical resolve"
    and i: "i < length cs"
    and c: "cs ! i = CopyFile P Q"
    and same: "resolve P = Inr k" "resolve Q = Inr k"
    and s: "s = run resolve sched (start cs)"
  shows "(snd (calls s ! i) = Start \<or> snd (calls s ! i) = GotSource k)
     \<and> \<not> in_io (snd (calls s ! i)) \<and> \<not> finished (snd (calls s ! i))
     \<and> (snd (calls s ! i) = GotSource k \<longrightarrow>
          k \<in> dom (fileLocks (registry s)) \<and> step resolve (i, io) s = s)"
proof -
  have inv: "invariant resolve cs s" unfolding s using canon by (rule reachable_invariant)
  note il = invariantD(4) [OF inv i]
  obtain c' p where cp: "calls s ! i = (c', p)" by (cases "calls s ! i")
  from invariantD(5) [OF inv i] cp c have c': "c' = CopyFile P Q" by simp
  from invariantD(1,2,3) [OF inv i] cp c
  have fit: "fits resolve (CopyFile P Q) p" and dist: "distinct (held p)"
    and sub: "set (held p) \<subseteq> dom (fileLocks (registry s))"
    by simp_all
  have place: "p = Start \<or> p = GotSource k"
    using fit dist same by (cases p) (auto simp: keys_def)
  have wait: "step resolve (i, io) s = s" and "k \<in> dom (fileLocks (registry s))"
    if "p = GotSource k"
    using that sub same cp c' il
    by (auto simp: step_def poll_def list_update_same_conv [THEN iffD2])
  with place cp show ?thesis by auto
qed

text \<open>\<^verbatim>\<open>copyFile('a.txt', '/app/a.txt')\<close> in the working directory \<^verbatim>\<open>/app\<close>.\<close>

theorem copyFile_same_path_never_completes_witness:
  "canonical sample_resolve
   \<and> (0::nat) < length [CopyFile ''a.txt'' ''/app/a.txt'']
   \<and> sample_resolve ''a.txt'' = Inr ''/app/a.txt''
   \<and> sample_resolve ''/app/a.txt'' = Inr ''/app/a.txt''
   \<and> snd (calls (run sample_resolve [(0, None), (0, None), (0, None)]
                (start [CopyFile ''a.txt'' ''/app/a.txt''])) ! 0) = GotSource ''/app/a.txt''
   \<and> \<not> finished (snd (calls (run sample_resolve [(0, None), (0, None), (0, None)]
                (start [CopyFile ''a.txt'' ''/app/a.txt''])) ! 0))
   \<and> ''/app/a.txt'' \<in> dom (fileLocks (registry (run sample_resolve [(0, None), (0, None), (0, None)]
                (start [CopyFile ''a.txt'' ''/app/a.txt'']))))
   \<and> step sample_resolve (0, None)
        (run sample_resolve [(0, None), (0, None), (0, None)]
           (start [CopyFile ''a.txt'' ''/app/a.txt''])) =
      run sample_resolve [(0, None), (0, None), (0, None)]
        (start [CopyFile ''a.txt'' ''/app/a.txt''])"
proof -
  let ?cs = "[CopyFile ''a.txt'' ''/app/a.txt'']"
  let ?s = "run sample_resolve [(0, None), (0, None), (0, None)] (start ?cs)"
  have P: "sample_resolve ''a.txt'' = Inr ''/app/a.txt''"
    and Q: "sample_resolve ''/app/a.txt'' = Inr ''/app/a.txt''"
    by (simp_all add: sample_resolve_def)
  have p: "snd (calls ?s ! 0) = GotSource ''/app/a.txt''" by (simp add: evals)
  from copyFile_same_path_never_completes [OF sample_resolve_canonical _ _ P Q refl,
      of 0 ?cs "[(0, None), (0, None), (0, None)]" None] p P Q sample_resolve_canonical
  show ?thesis by simp
qed

lemma idle_step:
  assumes "i < length (calls s)" and "idle resolve (registry s) (calls s ! i)"
  shows "step resolve (i, io) s = s"
proof -
  obtain c p where cp: "calls s ! i = (c, p)" by (cases "calls s ! i")
  from assms(2) have "advance resolve i io c p (registry s) = (p, registry s, [])"
    unfolding cp by (cases "(resolve, registry s, (c, p))" rule: idle.cases)
      (auto simp: poll_def split: sum.splits)
  with assms(1) cp show ?thesis
    by (simp add: step_def list_update_same_conv [THEN iffD2])
qed

lemma all_idle_run:
  assumes "list_all (idle resolve (registry s)) (calls s)"
  shows "run resolve sched s = s"
proof (induction sched)
  case Nil
  show ?case by (simp add: run_def)
next
  case (Cons a sched)
  obtain i io where a: "a = (i, io)" by (cases a)
  have "step resolve a s = s"
  proof (cases "i < length (calls s)")
    case True
    with assms have "idle resolve (registry s) (calls s ! i)" by (simp add: list_all_length)
    with True show ?thesis unfolding a by (rule idle_step)
  next
    case False
    then show ?thesis unfolding a by (rule step_outside)
  qed
  with Cons.IH show ?case by (simp add: run_def)
qed

lemma crossed_copies:
  assumes "resolve A = Inr a" and "resolve B = Inr b" and "a \<noteq> b"
  shows "run resolve ((0, x) # (1, y) # rest) (start [CopyFile A B, CopyFile B A]) =
     \<lparr>registry = FileHandler_new\<lparr>fileLocks := [a \<mapsto> True, b \<mapsto> True]\<rparr>,
      calls = [(CopyFile A B, GotSource a), (CopyFile B A, GotSource b)],
      history = [Acquired 0 a, Acquired 1 b]\<rparr>"
    (is "_ = ?dead")
proof -
  have "run resolve [(0, x), (1, y)] (start [CopyFile A B, CopyFile B A]) = ?dead"
    using assms by (simp add: run_def step_def start_def poll_def FileHandler_new_def)
  moreover have "run resolve rest ?dead = ?dead"
    by (rule all_idle_run) (simp add: FileHandler_new_def assms)
  ultimately show ?thesis
    using run_append [of resolve "[(0, x), (1, y)]" rest] by simp
qed

text \<open>
  C2 as stated fails: \<^verbatim>\<open>copyFile('/a', '/b')\<close> and \<^verbatim>\<open>copyFile('/b', '/a')\<close>, issued one
  after the other, each take the lock of their source. In the state then reached each
  call polls the entry the other holds, and no continuation of the run completes
  either copy.
\<close>

theorem copyFile_pair_deadlock_counterexample:
  "run sample_resolve [(0, None), (1, None)]
       (start [CopyFile ''/a'' ''/b'', CopyFile ''/b'' ''/a'']) =
     \<lparr>registry = FileHandler_new\<lparr>fileLocks := [''/a'' \<mapsto> True, ''/b'' \<mapsto> True]\<rparr>,
      calls = [(CopyFile ''/a'' ''/b'', GotSource ''/a''), (CopyFile ''/b'' ''/a'', GotSource ''/b'')],
      history = [Acquired 0 ''/a'', Acquired 1 ''/b'']\<rparr>
   \<and> list_all (idle sample_resolve (FileHandler_new\<lparr>fileLocks := [''/a'' \<mapsto> True, ''/b'' \<mapsto> True]\<rparr>))
         [(CopyFile ''/a'' ''/b'', GotSource ''/a''), (CopyFile ''/b'' ''/a'', GotSource ''/b'')]
   \<and> \<not> (\<forall>sched. \<exists>rest. list_all (\<lambda>cp. finished (snd cp))
           (calls (run sample_resolve (sched @ rest)
              (start [CopyFile ''/a'' ''/b'', CopyFile ''/b'' ''/a'']))))"
proof -
  have ne: "''/a'' \<noteq> ''/b''"
    and a: "sample_resolve ''/a'' = Inr ''/a''" and b: "sample_resolve ''/b'' = Inr ''/b''"
    by (simp_all add: sample_resolve_def)
  note dead = crossed_copies [of sample_resolve "''/a''" "''/a''" "''/b''" "''/b''", OF a b ne]
  have "\<not> (\<forall>sched. \<exists>rest. list_all (\<lambda>cp. finished (snd cp))
           (calls (run sample_resolve (sched @ rest)
              (start [CopyFile ''/a'' ''/b'', CopyFile ''/b'' ''/a'']))))"
  proof
    assume "\<forall>sched. \<exists>rest. list_all (\<lambda>cp. finished (snd cp))
           (calls (run sample_resolve (sched @ rest)
              (start [CopyFile ''/a'' ''/b'', CopyFile ''/b'' ''/a''])))"
    then obtain rest where "list_all (\<lambda>cp. finished (snd cp))
           (calls (run sample_resolve ([(0, None), (1, None)] @ rest)
              (start [CopyFile ''/a'' ''/b'', CopyFile ''/b'' ''/a''])))"
      by blast
    then show False
      unfolding append_Cons append_Nil dead by simp
  qed
  moreover have "list_all (idle sample_resolve (FileHandler_new\<lparr>fileLocks := [''/a'' \<mapsto> True, ''/b'' \<mapsto> True]\<rparr>))
         [(CopyFile ''/a'' ''/b'', GotSource ''/a''), (CopyFile ''/b'' ''/a'', GotSource ''/b'')]"
    by (simp add: a b)
  ultimately show ?thesis using dead [of None None "[]"] by blast
qed

lemma run_single: "run resolve [a] s = step resolve a s"
  by (simp add: run_def)

lemma first_takes_both:
  assumes "resolve A = Inr a" and "resolve B = Inr b" and "a \<noteq> b"
  shows "run resolve [(0, x), (0, x), (1, y), (0, x), (1, y)] (start [CopyFile A B, CopyFile B A]) =
     \<lparr>registry = FileHandler_new\<lparr>fileLocks := [a \<mapsto> True, b \<mapsto> True]\<rparr>,
      calls = [(CopyFile A B, InIO [a, b]), (CopyFile B A, Start)],
      history = [Acquired 0 a, Acquired 0 b]\<rparr>"
  using assms
  by (simp add: run_def step_def start_def poll_def FileHandler_new_def)

lemma first_completes:
  assumes "resolve a = Inr a" and "resolve b = Inr b" and "a \<noteq> b"
  shows "step resolve (0, x)
      \<lparr>registry = FileHandler_new\<lparr>fileLocks := [a \<mapsto> True, b \<mapsto> True]\<rparr>,
       calls = [(CopyFile A B, InIO [a, b]), (CopyFile B A, Start)],
       history = [Acquired 0 a, Acquired 0 b]\<rparr> =
     \<lparr>registry = FileHandler_new,
      calls =
        [(CopyFile A B,
          Done (case x of None \<Rightarrow> Returned | Some message \<Rightarrow> Threw (failure (CopyFile A B) message))),
         (CopyFile B A, Start)],
      history = [Acquired 0 a, Acquired 0 b, Released 0 a, Released 0 b]\<rparr>"
  using assms
  by (cases x)
    (simp_all add: step_def FileHandler_new_def releaseLock_def finally_release_def fun_upd_twist)

lemma second_follows:
  assumes "resolve A = Inr a" and "resolve B = Inr b" and "resolve a = Inr a"
    and "resolve b = Inr b" and "a \<noteq> b"
  shows "run resolve [(1, y), (1, y), (1, y), (1, y)]
      \<lparr>registry = FileHandler_new,
       calls = [(CopyFile A B, Done r), (CopyFile B A, Start)],
       history = [Acquired 0 a, Acquired 0 b, Released 0 a, Released 0 b]\<rparr> =
     \<lparr>registry = FileHandler_new,
      calls =
        [(CopyFile A B, Done r),
         (CopyFile B A,
          Done (case y of None \<Rightarrow> Returned | Some message \<Rightarrow> Threw (failure (CopyFile B A) message)))],
      history =
        [Acquired 0 a, Acquired 0 b, Released 0 a, Released 0 b,
         Acquired 1 b, Acquired 1 a, Released 1 b, Released 1 a]\<rparr>"
  using assms
  by (cases y)
    (simp_all add: run_def step_def poll_def FileHandler_new_def releaseLock_def
      finally_release_def fun_upd_twist)

lemma one_after_the_other:
  assumes "resolve A = Inr a" and "resolve B = Inr b" and "resolve a = Inr a"
    and "resolve b = Inr b" and "a \<noteq> b"
  shows "run resolve [(0, x), (0, x), (1, y), (0, x), (1, y), (0, x), (1, y), (1, y), (1, y), (1, y)]
           (start [CopyFile A B, CopyFile B A]) =
     \<lparr>registry = FileHandler_new,
      calls =
        [(CopyFile A B,
          Done (case x of None \<Rightarrow> Returned | Some message \<Rightarrow> Threw (failure (CopyFile A B) message))),
         (CopyFile B A,
          Done (case y of None \<Rightarrow> Returned | Some message \<Rightarrow> Threw (failure (CopyFile B A) message)))],
      history =
        [Acquired 0 a, Acquired 0 b, Released 0 a, Released 0 b,
         Acquired 1 b, Acquired 1 a, Released 1 b, Released 1 a]\<rparr>"
proof -
  have "run resolve ([(0, x), (0, x), (1, y), (0, x), (1, y)] @ [(0, x)] @ [(1, y), (1, y), (1, y), (1, y)])
           (start [CopyFile A B, CopyFile B A]) =
     \<lparr>registry = FileHandler_new,
      calls =
        [(CopyFile A B,
          Done (case x of None \<Rightarrow> Returned | Some message \<Rightarrow> Threw (failure (CopyFile A B) message))),
         (CopyFile B A,
          Done (case y of None \<Rightarrow> Returned | Some message \<Rightarrow> Threw (failure (CopyFile B A) message)))],
      history =
        [Acquired 0 a, Acquired 0 b, Released 0 a, Released 0 b,
         Acquired 1 b, Acquired 1 a, Released 1 b, Released 1 a]\<rparr>"
    by (simp only: run_append first_takes_both [OF assms(1,2,5)]
        first_completes [OF assms(3,4,5), folded run_single]
        second_follows [OF assms])
  then show ?thesis by simp
qed

text \<open>
  C2, as the code has it. \<^verbatim>\<open>copyFile\<close> takes the lock of its source, then the lock of
  its destination. For \<open>A\<close> and \<open>B\<close> with different canonical paths,
  \<^verbatim>\<open>copyFile(A, B)\<close> and \<^verbatim>\<open>copyFile(B, A)\<close> running concurrently: once each call has
  taken the lock of its source, neither ever completes, however the run continues; when
  one call has taken both locks before the other takes the lock of its source, both
  copies complete.
\<close>

theorem copyFile_pair_order:
  assumes "resolve A = Inr a" and "resolve B = Inr b" and "resolve a = Inr a"
    and "resolve b = Inr b" and "a \<noteq> b"
  shows "history (run resolve [(0, x), (0, x)] (start [CopyFile A B, CopyFile B A])) =
           [Acquired 0 a, Acquired 0 b]
     \<and> \<not> list_ex (\<lambda>cp. finished (snd cp))
           (calls (run resolve ((0, x) # (1, y) # rest) (start [CopyFile A B, CopyFile B A])))
     \<and> list_all (\<lambda>cp. finished (snd cp))
           (calls (run resolve
              [(0, x), (0, x), (1, y), (0, x), (1, y), (0, x), (1, y), (1, y), (1, y), (1, y)]
              (start [CopyFile A B, CopyFile B A])))"
proof -
  have "history (run resolve [(0, x), (0, x)] (start [CopyFile A B, CopyFile B A])) =
           [Acquired 0 a, Acquired 0 b]"
    using assms
    by (simp add: run_def step_def start_def poll_def FileHandler_new_def)
  moreover have "\<not> list_ex (\<lambda>cp. finished (snd cp))
           (calls (run resolve ((0, x) # (1, y) # rest) (start [CopyFile A B, CopyFile B A])))"
    unfolding crossed_copies [of resolve A a B b, OF assms(1,2,5)] by simp
  moreover have "list_all (\<lambda>cp. finished (snd cp))
           (calls (run resolve
              [(0, x), (0, x), (1, y), (0, x), (1, y), (0, x), (1, y), (1, y), (1, y), (1, y)]
              (start [CopyFile A B, CopyFile B A])))"
    unfolding one_after_the_other [of resolve A a B b, OF assms] by simp
  ultimately show ?thesis by blast
qed

theorem copyFile_pair_order_witness:
  "sample_resolve ''/a'' = Inr ''/a''
   \<and> sample_resolve ''/b'' = Inr ''/b''
   \<and> ''/a'' \<noteq> ''/b''
   \<and> history (run sample_resolve [(0, None), (0, None)]
         (start [CopyFile ''/a'' ''/b'', CopyFile ''/b'' ''/a''])) =
       [Acquired 0 ''/a'', Acquired 0 ''/b'']
   \<and> \<not> list_ex (\<lambda>cp. finished (snd cp))
         (calls (run sample_resolve [(0, None), (1, None), (0, None), (1, None), (1, None), (0, None)]
            (start [CopyFile ''/a'' ''/b'', CopyFile ''/b'' ''/a''])))
   \<and> list_all (\<lambda>cp. finished (snd cp))
         (calls (run sample_resolve
            [(0, None), (0, None), (1, None), (0, None), (1, None), (0, None),
             (1, None), (1, None), (1, None), (1, None)]
            (start [CopyFile ''/a'' ''/b'', CopyFile ''/b'' ''/a''])))"
proof -
  have ne: "''/a'' \<noteq> ''/b''"
    and a: "sample_resolve ''/a'' = Inr ''/a''" and b: "sample_resolve ''/b'' = Inr ''/b''"
    by (simp_all add: sample_resolve_def)
  from copyFile_pair_order [OF a b a b ne,
      of None None "[(0, None), (1, None), (1, None), (0, None)]"] ne a b
  show ?thesis by simp
qed

end
